theory Spec2Isabelle
  imports Main "HOL-Library.Char_ord" "HOL-Library.List_Lexorder" "HOL-Library.Sublist"
begin

section \<open>Characters\<close>

text \<open>
  A Python \<open>str\<close> is a sequence of code points. The model reads a \<^typ>\<open>char\<close> as one code
  point in the range 0..255 (Latin-1), so \<^typ>\<open>string\<close> covers the texts whose code points
  are below 256, and \<^const>\<open>length\<close> counts code points as Python's \<open>len\<close> does.
  The tables below are those of Python's \<open>re\<close> module for \<open>str\<close> patterns, cut to that range.
\<close>

definition in_range :: "char \<Rightarrow> char \<Rightarrow> char \<Rightarrow> bool" where
  "in_range lo hi c = (if lo \<le> c then c \<le> hi else False)"

definition is_space :: "char \<Rightarrow> bool" where
  \<comment> \<open>\<open>\s\<close>: the Unicode whitespace code points below 256\<close>
  "is_space c =
     (if in_range (CHR 0x09) (CHR 0x0D) c then True
      else if in_range (CHR 0x1C) (CHR 0x20) c then True
      else if c = CHR 0x85 then True else c = CHR 0xA0)"

definition is_word :: "char \<Rightarrow> bool" where
  \<comment> \<open>\<open>\w\<close>: the alphanumeric code points below 256, and the underscore\<close>
  "is_word c =
     (if in_range CHR ''a'' CHR ''z'' c then True
      else if in_range CHR ''A'' CHR ''Z'' c then True
      else if in_range CHR ''0'' CHR ''9'' c then True
      else if c = CHR ''_'' then True
      else if c < CHR 0xAA then False
      else c \<in> {CHR 0xAA, CHR 0xB2, CHR 0xB3, CHR 0xB5, CHR 0xB9, CHR 0xBA}
        \<or> in_range (CHR 0xBC) (CHR 0xBE) c \<or> in_range (CHR 0xC0) (CHR 0xD6) c
        \<or> in_range (CHR 0xD8) (CHR 0xF6) c \<or> CHR 0xF8 \<le> c)"

fun set_case_bit :: "bool \<Rightarrow> char \<Rightarrow> char" where
  \<comment> \<open>bit 5 (value 32) separates the two cases of a letter below 256\<close>
  "set_case_bit b (Char b0 b1 b2 b3 b4 b5 b6 b7) = Char b0 b1 b2 b3 b4 b b6 b7"

definition lower_char :: "char \<Rightarrow> char" where
  \<comment> \<open>\<open>str.lower\<close> on one code point below 256: \<open>A-Z\<close> and \<open>0xC0-0xDE\<close> but \<open>0xD7\<close> move up by 32\<close>
  "lower_char c =
     (if in_range CHR ''A'' CHR ''Z'' c then set_case_bit True c
      else if in_range (CHR 0xC0) (CHR 0xDE) c \<and> c \<noteq> CHR 0xD7 then set_case_bit True c
      else c)"

definition upper_char :: "char \<Rightarrow> char" where
  \<comment> \<open>the upper-case mapping where it stays below 256: \<open>a-z\<close> and \<open>0xE0-0xFE\<close> but \<open>0xF7\<close> move down by 32\<close>
  "upper_char c =
     (if in_range CHR ''a'' CHR ''z'' c then set_case_bit False c
      else if in_range (CHR 0xE0) (CHR 0xFE) c \<and> c \<noteq> CHR 0xF7 then set_case_bit False c
      else c)"

definition lower :: "string \<Rightarrow> string" where
  "lower s = map lower_char s"

section \<open>Regular expressions as Python's \<open>re\<close> matches them\<close>

text \<open>
  The patterns of both scripts use literals, character classes, \<open>\s\<close>, \<open>\b\<close>, sequencing,
  alternation, greedy repetition (\<open>+\<close>, \<open>*\<close>, \<open>?\<close>, \<open>{n,}\<close>) and groups. A non-capturing group
  \<open>(?:...)\<close> is plain nesting of the syntax tree; a capturing group carries its number.
\<close>

datatype item = Rng char char | Spc

datatype re = Eps | Lit char | Cls "item list" | Bnd | Cat re re | Alt re re
  | Rep nat "nat option" re | Grp nat re

fun in_item :: "item \<Rightarrow> char \<Rightarrow> bool" where
  "in_item (Rng lo hi) c = in_range lo hi c"
| "in_item Spc c = is_space c"

definition in_cls :: "bool \<Rightarrow> item list \<Rightarrow> char \<Rightarrow> bool" where
  \<comment> \<open>with \<open>re.IGNORECASE\<close> a class also accepts a character one of whose case variants it holds\<close>
  "in_cls ic its c =
     (if list_ex (\<lambda>i. in_item i c) its then True
      else if ic then
        (if list_ex (\<lambda>i. in_item i (lower_char c)) its then True
         else list_ex (\<lambda>i. in_item i (upper_char c)) its)
      else False)"

definition lit_eq :: "bool \<Rightarrow> char \<Rightarrow> char \<Rightarrow> bool" where
  \<comment> \<open>with \<open>re.IGNORECASE\<close> a literal is compared in lower case\<close>
  "lit_eq ic p c = (if c = p then True else if ic then lower_char c = lower_char p else False)"

text \<open>
  A matcher state is the text to the left of the cursor (nearest character first), the text
  to the right, and the groups captured so far (latest first).
\<close>

type_synonym captures = "(nat \<times> string) list"
type_synonym mstate = "string \<times> string \<times> captures"

definition at_boundary :: "string \<Rightarrow> string \<Rightarrow> bool" where
  \<comment> \<open>\<open>\b\<close>: exactly one of the two neighbours of the cursor is a word character\<close>
  "at_boundary l r = ((case l of [] \<Rightarrow> False | c # _ \<Rightarrow> is_word c) \<noteq> (case r of [] \<Rightarrow> False | c # _ \<Rightarrow> is_word c))"

fun rep_lo :: "re \<Rightarrow> nat" where
  "rep_lo (Rep lo hi a) = lo"
| "rep_lo _ = 0"

text \<open>
  \<open>re_match ic e st\<close> lists every way the backtracking matcher can match \<open>e\<close> at \<open>st\<close>, in the
  order in which it tries them: the head of the list is the match Python returns. A greedy
  repetition tries one more iteration before it tries to stop; beyond the required minimum an
  iteration that consumes nothing is not repeated.
\<close>

function re_match :: "bool \<Rightarrow> re \<Rightarrow> mstate \<Rightarrow> mstate list" where
  "re_match ic Eps st = [st]"
| "re_match ic (Lit p) (l, r, g) =
     (case r of [] \<Rightarrow> [] | c # cs \<Rightarrow> if lit_eq ic p c then [(c # l, cs, g)] else [])"
| "re_match ic (Cls its) (l, r, g) =
     (case r of [] \<Rightarrow> [] | c # cs \<Rightarrow> if in_cls ic its c then [(c # l, cs, g)] else [])"
| "re_match ic Bnd (l, r, g) = (if at_boundary l r then [(l, r, g)] else [])"
| "re_match ic (Cat a b) st = concat (map (re_match ic b) (re_match ic a st))"
| "re_match ic (Alt a b) st = re_match ic a st @ re_match ic b st"
| "re_match ic (Grp n a) (l, r, g) =
     map (\<lambda>(l', r', g'). (l', r', (n, rev (take (length l' - length l) l')) # g'))
       (re_match ic a (l, r, g))"
| "re_match ic (Rep lo hi a) (l, r, g) =
     (if hi = Some 0 then []
      else concat (map (\<lambda>(l', r', g').
              if 0 < lo \<or> length r' < length r
              then re_match ic (Rep (lo - 1) (map_option (\<lambda>h. h - 1) hi) a) (l', r', g')
              else [])
            (re_match ic a (l, r, g))))
     @ (if lo = 0 then [(l, r, g)] else [])"
  by pat_completeness auto
termination
  by (relation "inv_image (less_than <*lex*> less_than <*lex*> less_than)
        (\<lambda>(ic, e, (l, r, g)). (size e, rep_lo e, length r))") auto

subsection \<open>\<open>re.findall\<close>\<close>

datatype found = Str string | Tup "string list"

fun ngroups :: "re \<Rightarrow> nat" where
  "ngroups (Cat a b) = ngroups a + ngroups b"
| "ngroups (Alt a b) = ngroups a + ngroups b"
| "ngroups (Rep lo hi a) = ngroups a"
| "ngroups (Grp n a) = Suc (ngroups a)"
| "ngroups _ = 0"

definition group_text :: "captures \<Rightarrow> nat \<Rightarrow> string" where
  \<comment> \<open>a group that took no part in the match gives the empty string\<close>
  "group_text g n = (case map_of g n of None \<Rightarrow> [] | Some s \<Rightarrow> s)"

definition result_of :: "re \<Rightarrow> string \<Rightarrow> captures \<Rightarrow> found" where
  \<comment> \<open>no group: the matched text; one group: its text; more: the tuple of all groups\<close>
  "result_of e w g =
     (if ngroups e = 0 then Str w
      else if ngroups e = 1 then Str (group_text g 1)
      else Tup (map (group_text g) [1..<Suc (ngroups e)]))"

text \<open>
  The scan goes left to right: at a position where the pattern matches, the result is recorded
  and the scan resumes where the match ended; elsewhere it moves on by one character. No
  pattern of the two scripts matches the empty string (lemma \<open>patterns_consume\<close> below), so
  the scan past an empty match, and the attempt at the very end of the text, are not modelled.
\<close>

function findall_from :: "bool \<Rightarrow> re \<Rightarrow> string \<Rightarrow> string \<Rightarrow> found list" where
  "findall_from ic e l [] = []"
| "findall_from ic e l (c # cs) =
     (case re_match ic e (l, c # cs, []) of
        [] \<Rightarrow> findall_from ic e (c # l) cs
      | (l', r', g') # _ \<Rightarrow>
          if length r' < length (c # cs)
          then result_of e (rev (take (length l' - length l) l')) g' # findall_from ic e l' r'
          else findall_from ic e (c # l) cs)"
  by pat_completeness auto
termination
  by (relation "measure (\<lambda>(ic, e, l, r). length r)") auto

definition findall :: "bool \<Rightarrow> re \<Rightarrow> string \<Rightarrow> found list" where
  "findall ic e s = findall_from ic e [] s"

subsection \<open>Pattern syntax\<close>

definition seq :: "re list \<Rightarrow> re" where
  "seq es = foldr Cat es Eps"

definition str :: "string \<Rightarrow> re" where
  "str s = seq (map Lit s)"

definition plus :: "re \<Rightarrow> re" where
  "plus e = Rep 1 None e"

definition star :: "re \<Rightarrow> re" where
  "star e = Rep 0 None e"

definition opt :: "re \<Rightarrow> re" where
  "opt e = Rep 0 (Some 1) e"

definition upper_cls :: re where
  "upper_cls = Cls [Rng CHR ''A'' CHR ''Z'']"

definition lower_cls :: re where
  "lower_cls = Cls [Rng CHR ''a'' CHR ''z'']"

definition space_cls :: re where
  "space_cls = Cls [Spc]"

definition entity :: re where
  \<comment> \<open>\<open>[A-Z][a-z]+(?:\s+[A-Z][a-z]+)*\<close>\<close>
  "entity = seq [upper_cls, plus lower_cls, star (seq [plus space_cls, upper_cls, plus lower_cls])]"

section \<open>\<open>extract_pdf_text.py\<close>\<close>

subsection \<open>\<open>extract_names_and_relationships\<close>\<close>

definition name_pattern :: re where
  \<comment> \<open>\<open>\b[A-Z][a-z]+(?:\s+[A-Z][a-z]+)*\b\<close>\<close>
  "name_pattern =
     seq [Bnd, upper_cls, Rep 1 None lower_cls,
          star (seq [plus space_cls, upper_cls, Rep 1 None lower_cls]), Bnd]"

definition common_words :: "string set" where
  "common_words = {''The'', ''This'', ''That'', ''They'', ''There'', ''Then'', ''These'', ''Those'',
     ''When'', ''Where'', ''What'', ''Why'', ''How'', ''Who'', ''Which'', ''Interview'',
     ''Transcript'', ''Maxwell'', ''Redacted'', ''Page'', ''Question'', ''Answer'',
     ''Detective'', ''Officer'', ''Mr'', ''Mrs'', ''Ms'', ''Dr'', ''Professor''}"

text \<open>
  \<open>name_pattern\<close> has no group, so \<open>re.findall\<close> returns the matched texts; the branch for a
  tuple is never taken.
\<close>

fun add_name :: "string set \<Rightarrow> found \<Rightarrow> string set \<Rightarrow> string set" where
  "add_name stop (Str name) names =
     (if name \<notin> stop \<and> length name > 2 then insert name names else names)"
| "add_name stop (Tup t) names = names"

definition possessive :: re where
  \<comment> \<open>\<open>(?:my|his|her|their)\<close>\<close>
  "possessive = Alt (str ''my'') (Alt (str ''his'') (Alt (str ''her'') (str ''their'')))"

definition rel_is :: re where
  \<comment> \<open>\<open>([A-Z][a-z]+(?:\s+[A-Z][a-z]+)*)\s+(?:is|was)\s+(?:my|his|her|their)\s+([a-z]+)\<close>\<close>
  "rel_is = seq [Grp 1 entity, plus space_cls, Alt (str ''is'') (str ''was''), plus space_cls,
                 possessive, plus space_cls, Grp 2 (plus lower_cls)]"

definition rel_and :: re where
  \<comment> \<open>\<open>([A-Z][a-z]+(?:\s+[A-Z][a-z]+)*)\s+and\s+([A-Z][a-z]+(?:\s+[A-Z][a-z]+)*)\s+are\s+([a-z]+)\<close>\<close>
  "rel_and = seq [Grp 1 entity, plus space_cls, str ''and'', plus space_cls, Grp 2 entity,
                  plus space_cls, str ''are'', plus space_cls, Grp 3 (plus lower_cls)]"

definition rel_works :: re where
  \<comment> \<open>\<open>([A-Z][a-z]+(?:\s+[A-Z][a-z]+)*)\s+works?\s+(?:with|for)\s+([A-Z][a-z]+(?:\s+[A-Z][a-z]+)*)\<close>\<close>
  "rel_works = seq [Grp 1 entity, plus space_cls, str ''work'', opt (Lit CHR ''s''),
                    plus space_cls, Alt (str ''with'') (str ''for''), plus space_cls, Grp 2 entity]"

definition rel_knows :: re where
  \<comment> \<open>\<open>([A-Z][a-z]+(?:\s+[A-Z][a-z]+)*)\s+knows?\s+([A-Z][a-z]+(?:\s+[A-Z][a-z]+)*)\<close>\<close>
  "rel_knows = seq [Grp 1 entity, plus space_cls, str ''know'', opt (Lit CHR ''s''),
                    plus space_cls, Grp 2 entity]"

definition rel_met :: re where
  \<comment> \<open>\<open>([A-Z][a-z]+(?:\s+[A-Z][a-z]+)*)\s+(?:met|meets?)\s+([A-Z][a-z]+(?:\s+[A-Z][a-z]+)*)\<close>\<close>
  "rel_met = seq [Grp 1 entity, plus space_cls,
                  Alt (str ''met'') (seq [str ''meet'', opt (Lit CHR ''s'')]),
                  plus space_cls, Grp 2 entity]"

definition relationship_patterns :: "re list" where
  "relationship_patterns = [rel_is, rel_and, rel_works, rel_knows, rel_met]"

definition red_is :: re where
  \<comment> \<open>\<open>REDACTED\s+(?:is|was)\s+(?:my|his|her|their)\s+([a-z]+)\<close>\<close>
  "red_is = seq [str ''REDACTED'', plus space_cls, Alt (str ''is'') (str ''was''), plus space_cls,
                 possessive, plus space_cls, Grp 1 (plus lower_cls)]"

definition red_and_left :: re where
  \<comment> \<open>\<open>REDACTED\s+and\s+([A-Z][a-z]+(?:\s+[A-Z][a-z]+)*)\s+are\s+([a-z]+)\<close>\<close>
  "red_and_left = seq [str ''REDACTED'', plus space_cls, str ''and'', plus space_cls, Grp 1 entity,
                       plus space_cls, str ''are'', plus space_cls, Grp 2 (plus lower_cls)]"

definition red_and_right :: re where
  \<comment> \<open>\<open>([A-Z][a-z]+(?:\s+[A-Z][a-z]+)*)\s+and\s+REDACTED\s+are\s+([a-z]+)\<close>\<close>
  "red_and_right = seq [Grp 1 entity, plus space_cls, str ''and'', plus space_cls,
                        str ''REDACTED'', plus space_cls, str ''are'', plus space_cls,
                        Grp 2 (plus lower_cls)]"

definition red_works_left :: re where
  \<comment> \<open>\<open>REDACTED\s+works?\s+(?:with|for)\s+([A-Z][a-z]+(?:\s+[A-Z][a-z]+)*)\<close>\<close>
  "red_works_left = seq [str ''REDACTED'', plus space_cls, str ''work'', opt (Lit CHR ''s''),
                         plus space_cls, Alt (str ''with'') (str ''for''), plus space_cls,
                         Grp 1 entity]"

definition red_works_right :: re where
  \<comment> \<open>\<open>([A-Z][a-z]+(?:\s+[A-Z][a-z]+)*)\s+works?\s+(?:with|for)\s+REDACTED\<close>\<close>
  "red_works_right = seq [Grp 1 entity, plus space_cls, str ''work'', opt (Lit CHR ''s''),
                          plus space_cls, Alt (str ''with'') (str ''for''), plus space_cls,
                          str ''REDACTED'']"

definition redacted_patterns :: "re list" where
  "redacted_patterns = [red_is, red_and_left, red_and_right, red_works_left, red_works_right]"

fun normalize :: "found \<Rightarrow> found" where
  \<comment> \<open>\<open>('REDACTED', match) if isinstance(match, str) else match\<close>\<close>
  "normalize (Str s) = Tup [''REDACTED'', s]"
| "normalize (Tup t) = Tup t"

definition extract_names_and_relationships :: "string \<Rightarrow> string set \<times> found list" where
  "extract_names_and_relationships text =
     (let potential_names = findall False name_pattern text;
          names = fold (add_name common_words) potential_names {};
          relationships = fold (\<lambda>pattern rels. rels @ findall True pattern text)
                            relationship_patterns [];
          relationships = fold (\<lambda>pattern rels. rels @ map normalize (findall True pattern text))
                            redacted_patterns relationships
      in (names, relationships))"

subsection \<open>Output and files\<close>

text \<open>
  Standard output is the list of the strings passed to \<open>print\<close>, in order. A file written in
  text mode is recorded as the encoding it was opened with and the characters written to it;
  opening for writing replaces whatever the name held before. A write is taken to succeed.
\<close>

record world =
  stdout :: "string list"
  files :: "string \<rightharpoonup> string \<times> string"

definition print :: "string \<Rightarrow> world \<Rightarrow> world" where
  "print s w = w\<lparr>stdout := stdout w @ [s]\<rparr>"

definition write_text :: "string \<Rightarrow> string \<Rightarrow> string \<Rightarrow> world \<Rightarrow> world" where
  \<comment> \<open>\<open>with open(name, "w", encoding=enc) as f: f.write(s)\<close>\<close>
  "write_text name enc s w = w\<lparr>files := (files w)(name \<mapsto> (enc, s))\<rparr>"

subsection \<open>\<open>extract_text_from_pdf\<close>\<close>

text \<open>
  What the PDF library makes of a path is an input of the model: either the texts of the pages
  in document order, or the message of the exception raised while opening or parsing.
\<close>

datatype pdf = Pages "string list" | Unreadable string

definition extract_text_from_pdf :: "(string \<Rightarrow> pdf) \<Rightarrow> string \<Rightarrow> world \<Rightarrow> string option \<times> world" where
  "extract_text_from_pdf pdfs pdf_path w =
     (case pdfs pdf_path of
        Unreadable e \<Rightarrow> (None, print (''Error reading '' @ pdf_path @ '': '' @ e) w)
      | Pages pages \<Rightarrow> (Some (fold (\<lambda>page text. text @ page @ [CHR 0x0A]) pages []), w))"

subsection \<open>The script\<close>

text \<open>
  The body of \<open>if text:\<close> for one document. Python's truth test fails for \<open>None\<close> and for the
  empty string. \<open>rep\<close> stands for Python's \<open>repr\<close> of a relationship tuple.
\<close>

definition report_document :: "(found \<Rightarrow> string) \<Rightarrow> string \<Rightarrow> string option \<Rightarrow> world \<Rightarrow> world" where
  "report_document rep sample text w =
     (case text of
        None \<Rightarrow> w
      | Some t \<Rightarrow>
          if t = [] then w
          else
            (let (names, relationships) = extract_names_and_relationships t;
                 w = print ''Names found:'' w;
                 w = fold (\<lambda>name. print (''  - '' @ name)) (sorted_list_of_set names) w;
                 w = print (CHR 0x0A # ''Relationships found:'') w;
                 w = fold (\<lambda>rel. print (''  - '' @ rep rel)) relationships w
             in write_text sample ''utf-8'' (take 5000 t) w))"

definition main :: "(found \<Rightarrow> string) \<Rightarrow> (string \<Rightarrow> pdf) \<Rightarrow> string \<Rightarrow> string \<Rightarrow> world \<Rightarrow> world" where
  \<comment> \<open>\<open>pdf1\<close>, \<open>pdf2\<close>: the two hard-coded paths\<close>
  "main rep pdfs pdf1 pdf2 w =
     (let w = print ''=== ANALYZING FIRST PDF ==='' w;
          (text1, w) = extract_text_from_pdf pdfs pdf1 w;
          w = report_document rep ''pdf1_sample.txt'' text1 w;
          w = print (CHR 0x0A # ''=== ANALYZING SECOND PDF ==='') w;
          (text2, w) = extract_text_from_pdf pdfs pdf2 w
      in report_document rep ''pdf2_sample.txt'' text2 w)"

section \<open>\<open>simple_pdf_analysis.py\<close>\<close>

definition text_pattern :: re where
  \<comment> \<open>\<open>[A-Za-z\s]{10,}\<close>\<close>
  "text_pattern = Rep 10 None (Cls [Rng CHR ''A'' CHR ''Z'', Rng CHR ''a'' CHR ''z'', Spc])"

definition name_pattern_simple :: re where
  \<comment> \<open>\<open>\b[A-Z][a-z]{2,}(?:\s+[A-Z][a-z]{2,})*\b\<close>\<close>
  "name_pattern_simple =
     seq [Bnd, upper_cls, Rep 2 None lower_cls,
          star (seq [plus space_cls, upper_cls, Rep 2 None lower_cls]), Bnd]"

definition common_words_simple :: "string set" where
  "common_words_simple = {''The'', ''This'', ''That'', ''They'', ''There'', ''Then'', ''These'', ''Those'',
     ''When'', ''Where'', ''What'', ''Why'', ''How'', ''Who'', ''Which'', ''Interview'',
     ''Transcript'', ''Maxwell'', ''Redacted'', ''Page'', ''Question'', ''Answer'',
     ''Detective'', ''Officer'', ''And'', ''But'', ''For'', ''Not'', ''You'', ''Are'',
     ''Was'', ''Were'', ''Been'', ''Have'', ''Has'', ''Had'', ''Will'', ''Would'',
     ''Could'', ''Should'', ''May'', ''Might'', ''Can'', ''Must'', ''Shall''}"

definition relationship_words :: "string list" where
  "relationship_words = [''partner'', ''colleague'', ''friend'', ''associate'', ''boss'', ''employee'',
     ''supervisor'', ''manager'', ''director'', ''works with'', ''knows'', ''met'']"

fun text_of :: "found \<Rightarrow> string" where
  \<comment> \<open>\<open>text_pattern\<close> has no group: every result of \<open>re.findall\<close> is a string\<close>
  "text_of (Str s) = s"
| "text_of (Tup t) = []"

fun join :: "string \<Rightarrow> string list \<Rightarrow> string" where
  "join sep [] = []"
| "join sep [x] = x"
| "join sep (x # y # ys) = x @ sep @ join sep (y # ys)"

fun contains :: "string \<Rightarrow> string \<Rightarrow> bool" where
  \<comment> \<open>\<open>w in t\<close>\<close>
  "contains [] w = (w = [])"
| "contains (c # cs) w = (if prefix w (c # cs) then True else contains cs w)"

definition digit :: "nat \<Rightarrow> char" where
  "digit n = char_of (48 + n)"

function show_nat :: "nat \<Rightarrow> string" where
  "show_nat n = (if n < 10 then [digit n] else show_nat (n div 10) @ [digit (n mod 10)])"
  by pat_completeness auto
termination
  by (relation "measure id") auto

definition repr_words :: "string list \<Rightarrow> string" where
  \<comment> \<open>Python's \<open>repr\<close> of a list of strings that hold no quote, backslash or control character\<close>
  "repr_words ws = ''['' @ join '', '' (map (\<lambda>w. [CHR 0x27] @ w @ [CHR 0x27]) ws) @ '']''"

definition redacted_count :: "string \<Rightarrow> nat" where
  \<comment> \<open>\<open>len(re.findall(r'REDACTED', readable_text, re.IGNORECASE))\<close>\<close>
  "redacted_count readable_text = length (findall True (str ''REDACTED'') readable_text)"

text \<open>
  What reading the file gives is an input of the model: the decoded prefix
  \<open>f.read(50000).decode('utf-8', errors='ignore')\<close>, or the message of the exception raised.
\<close>

datatype file_read = Content string | ReadError string

definition analyze_pdf_binary :: "(string \<Rightarrow> file_read) \<Rightarrow> string \<Rightarrow> world \<Rightarrow> (string option \<times> string set) \<times> world" where
  "analyze_pdf_binary disk file_path w =
     (let w = print (''Analyzing '' @ file_path) w
      in case disk file_path of
           ReadError e \<Rightarrow> ((None, {}), print (''Error reading '' @ file_path @ '': '' @ e) w)
         | Content content \<Rightarrow>
             (let text_parts = findall False text_pattern content;
                  readable_text = join '' '' (map text_of text_parts);
                  w = print ''Sample text found:'' w;
                  w = print (take 2000 readable_text) w;
                  w = print (replicate 50 CHR ''='') w;
                  potential_names = findall False name_pattern_simple readable_text;
                  names = fold (add_name common_words_simple) potential_names {};
                  w = print ''Potential names extracted:'' w;
                  w = fold (\<lambda>name. print (''  - '' @ name)) (take 20 (sorted_list_of_set names)) w;
                  w = print (''REDACTED mentions found: '' @ show_nat (redacted_count readable_text)) w;
                  relationships_found =
                    filter (\<lambda>word. contains (lower readable_text) (lower word)) relationship_words;
                  w = print (''Relationship terms found: '' @ repr_words relationships_found) w
              in ((Some readable_text, names), w)))"

definition main_simple :: "(string \<Rightarrow> file_read) \<Rightarrow> string \<Rightarrow> string \<Rightarrow> world \<Rightarrow> world" where
  "main_simple disk pdf1_path pdf2_path w =
     (let w = print ''=== FIRST PDF ANALYSIS ==='' w;
          ((text1, names1), w) = analyze_pdf_binary disk pdf1_path w;
          w = print (CHR 0x0A # ''=== SECOND PDF ANALYSIS ==='') w;
          ((text2, names2), w) = analyze_pdf_binary disk pdf2_path w;
          w = print (CHR 0x0A # ''=== SUMMARY ==='') w;
          all_names = names1 \<union> names2;
          w = print (''Total unique names found: '' @ show_nat (card all_names)) w;
          w = print ''All names:'' w
      in fold (\<lambda>name. print (''  - '' @ name)) (sorted_list_of_set all_names) w)"

section \<open>Vocabulary of the properties\<close>

text \<open>
  A capitalised word with at least \<open>k\<close> trailing letters is a letter of \<open>A-Z\<close> followed by
  \<open>k\<close> or more letters of \<open>a-z\<close>. A capitalised word sequence is such a word, then either the
  end or a run of whitespace and a further sequence.
\<close>

definition cap_word :: "nat \<Rightarrow> string \<Rightarrow> bool" where
  "cap_word k w = (case w of [] \<Rightarrow> False
     | c # cs \<Rightarrow> in_range CHR ''A'' CHR ''Z'' c \<and> k \<le> length cs \<and> list_all (in_range CHR ''a'' CHR ''z'') cs)"

function cap_seq :: "nat \<Rightarrow> string \<Rightarrow> bool" where
  "cap_seq k s =
     (let w = takeWhile (\<lambda>c. \<not> is_space c) s; rest = dropWhile (\<lambda>c. \<not> is_space c) s
      in if \<not> cap_word k w then False
         else if rest = [] then True
         else cap_seq k (dropWhile is_space rest))"
  by pat_completeness auto
termination
proof (relation "measure (\<lambda>(k, s). length s)", goal_cases)
  case 1
  show ?case by simp
next
  case (2 k s w rest)
  then have "w \<noteq> []" by (auto simp: cap_word_def)
  moreover have "length s = length w + length rest"
    using 2 by (metis length_append takeWhile_dropWhile_id)
  moreover have "length (dropWhile is_space rest) \<le> length rest"
    by (rule length_dropWhile_le)
  ultimately show ?case by (cases w) auto
qed

text \<open>
  The shape as section 4.2 of the specification words it: capitalised words chained by single
  spaces, that is, with exactly one character \<open>U+0020\<close> between two words.
\<close>

function single_spaced :: "nat \<Rightarrow> string \<Rightarrow> bool" where
  "single_spaced k s =
     (let w = takeWhile (\<lambda>c. c \<noteq> CHR '' '') s; rest = dropWhile (\<lambda>c. c \<noteq> CHR '' '') s
      in if \<not> cap_word k w then False
         else if rest = [] then True
         else single_spaced k (tl rest))"
  by pat_completeness auto
termination
proof (relation "measure (\<lambda>(k, s). length s)", goal_cases)
  case 1
  show ?case by simp
next
  case (2 k s w rest)
  have "length rest \<le> length s"
    using 2(2) by (simp add: length_dropWhile_le)
  with 2(4) show ?case by (cases rest) auto
qed



text \<open>
  A text starts with a word without regard to case; the number of positions of a text at which
  a word occurs without regard to case.
\<close>

definition ci_prefix :: "string \<Rightarrow> string \<Rightarrow> bool" where
  "ci_prefix w t = (length w \<le> length t \<and> lower (take (length w) t) = lower w)"

fun ci_count :: "string \<Rightarrow> string \<Rightarrow> nat" where
  "ci_count w [] = 0"
| "ci_count w (c # cs) = (if ci_prefix w (c # cs) then 1 else 0) + ci_count w cs"

text \<open>
  The letters \<open>a-z\<close> and \<open>A-Z\<close>, which are the characters that the classes \<open>[A-Z]\<close> and \<open>[a-z]\<close>
  accept under \<open>re.IGNORECASE\<close>; a text that begins with a letter. The nearest character of a
  text \<open>t\<close> that is not whitespace is the head of \<open>dropWhile is_space t\<close>, and the nearest one
  before a position is that of the reversed text to its left.
\<close>

definition letter :: "char \<Rightarrow> bool" where
  "letter c = (if in_range CHR ''a'' CHR ''z'' c then True else in_range CHR ''A'' CHR ''Z'' c)"

definition letter_first :: "string \<Rightarrow> bool" where
  "letter_first t = (case t of [] \<Rightarrow> False | c # _ \<Rightarrow> letter c)"

text \<open>
  Patterns that must begin with a letter, and patterns that consume letters and whitespace
  only, both read off the syntax for matching under \<open>re.IGNORECASE\<close>.
\<close>

fun starts :: "re \<Rightarrow> bool" where
  "starts (Lit p) = letter p"
| "starts (Cls its) = (its = [Rng CHR ''A'' CHR ''Z''] \<or> its = [Rng CHR ''a'' CHR ''z''])"
| "starts (Cat a b) = starts a"
| "starts (Alt a b) = (starts a \<and> starts b)"
| "starts (Grp n a) = starts a"
| "starts _ = False"

fun wordy :: "re \<Rightarrow> bool" where
  "wordy (Lit p) = letter p"
| "wordy (Cls its) = (its = [Rng CHR ''A'' CHR ''Z''] \<or> its = [Rng CHR ''a'' CHR ''z''] \<or> its = [Spc])"
| "wordy (Cat a b) = (wordy a \<and> wordy b)"
| "wordy (Alt a b) = (wordy a \<and> wordy b)"
| "wordy (Rep lo hi a) = wordy a"
| "wordy (Grp n a) = wordy a"
| "wordy _ = True"

text \<open>The least number of characters a pattern consumes, and the patterns of the two scripts.\<close>

fun minlen :: "re \<Rightarrow> nat" where
  "minlen Eps = 0"
| "minlen (Lit p) = 1"
| "minlen (Cls its) = 1"
| "minlen Bnd = 0"
| "minlen (Cat a b) = minlen a + minlen b"
| "minlen (Alt a b) = min (minlen a) (minlen b)"
| "minlen (Rep lo hi a) = lo * minlen a"
| "minlen (Grp n a) = minlen a"

definition all_patterns :: "re list" where
  "all_patterns = [name_pattern, name_pattern_simple, text_pattern, str ''REDACTED'']
     @ relationship_patterns @ redacted_patterns"

text \<open>The name pattern of either script, by the least number \<open>k\<close> of trailing letters.\<close>

definition name_re :: "nat \<Rightarrow> re" where
  "name_re k =
     seq [Bnd, upper_cls, Rep k None lower_cls,
          star (seq [plus space_cls, upper_cls, Rep k None lower_cls]), Bnd]"

text \<open>
  The language of a pattern, as the set of texts it can consume; \<open>\b\<close> consumes nothing.
\<close>

fun lang :: "bool \<Rightarrow> re \<Rightarrow> string set" where
  "lang ic Eps = {[]}"
| "lang ic (Lit p) = {[c] |c. lit_eq ic p c}"
| "lang ic (Cls its) = {[c] |c. in_cls ic its c}"
| "lang ic Bnd = {[]}"
| "lang ic (Cat a b) = {u @ v |u v. u \<in> lang ic a \<and> v \<in> lang ic b}"
| "lang ic (Alt a b) = lang ic a \<union> lang ic b"
| "lang ic (Rep lo hi a) =
     {concat ws |ws. set ws \<subseteq> lang ic a \<and> lo \<le> length ws \<and> (case hi of None \<Rightarrow> True | Some h \<Rightarrow> length ws \<le> h)}"
| "lang ic (Grp n a) = lang ic a"

text \<open>Patterns without \<open>\b\<close>, and the repeated part of a name pattern.\<close>

fun bnd_free :: "re \<Rightarrow> bool" where
  "bnd_free Bnd = False"
| "bnd_free (Cat a b) = (bnd_free a \<and> bnd_free b)"
| "bnd_free (Alt a b) = (bnd_free a \<and> bnd_free b)"
| "bnd_free (Rep lo hi a) = bnd_free a"
| "bnd_free (Grp n a) = bnd_free a"
| "bnd_free _ = True"

definition iter_re :: "nat \<Rightarrow> re" where
  "iter_re k = seq [plus space_cls, upper_cls, Rep k None lower_cls]"

text \<open>\<open>re.fullmatch(e, s) is not None\<close>\<close>

definition fullmatch :: "bool \<Rightarrow> re \<Rightarrow> string \<Rightarrow> bool" where
  "fullmatch ic e s = list_ex (\<lambda>(l, r, g). r = []) (re_match ic e ([], s, []))"

section \<open>Properties\<close>

subsection \<open>The matcher consumes words of the language\<close>

lemma upper_not_space: "in_range CHR ''A'' CHR ''Z'' c \<Longrightarrow> \<not> is_space c"
  by (auto simp add: in_range_def is_space_def less_eq_char_def split: if_splits)

lemma lower_not_space: "in_range CHR ''a'' CHR ''z'' c \<Longrightarrow> \<not> is_space c"
  by (auto simp add: in_range_def is_space_def less_eq_char_def split: if_splits)

lemma upper_is_word: "in_range CHR ''A'' CHR ''Z'' c \<Longrightarrow> is_word c"
  by (simp add: is_word_def)

lemma lower_is_word: "in_range CHR ''a'' CHR ''z'' c \<Longrightarrow> is_word c"
  by (simp add: is_word_def)

declare re_match.simps [simp del]

lemmas re_match_step = re_match.simps(1-7)

lemma Rep_mem:
  "st' \<in> set (re_match ic (Rep lo hi a) (l, r, g)) \<longleftrightarrow>
     (lo = 0 \<and> st' = (l, r, g)) \<or>
     (\<exists>l1 r1 g1. hi \<noteq> Some 0 \<and> (l1, r1, g1) \<in> set (re_match ic a (l, r, g))
        \<and> (0 < lo \<or> length r1 < length r)
        \<and> st' \<in> set (re_match ic (Rep (lo - 1) (map_option (\<lambda>h. h - 1) hi) a) (l1, r1, g1)))"
  by (subst re_match.simps(8)) (auto split: if_splits)

lemma re_match_sound:
  "st' \<in> set (re_match ic e st) \<Longrightarrow>
     \<exists>w. w \<in> lang ic e \<and> fst (snd st) = w @ fst (snd st') \<and> fst st' = rev w @ fst st"
proof (induction ic e st arbitrary: st' rule: re_match.induct)
  case (1 ic st)
  then show ?case by (simp add: re_match_step)
next
  case (2 ic p l r g)
  then show ?case by (auto simp add: re_match_step split: list.splits if_splits)
next
  case (3 ic its l r g)
  then show ?case by (auto simp add: re_match_step split: list.splits if_splits)
next
  case (4 ic l r g)
  then show ?case by (auto simp add: re_match_step split: if_splits)
next
  case (5 ic a b st)
  from 5(3) obtain st1 where m1: "st1 \<in> set (re_match ic a st)"
    and m2: "st' \<in> set (re_match ic b st1)"
    by (auto simp add: re_match_step)
  from 5(1) [OF m1] obtain u where u: "u \<in> lang ic a" "fst (snd st) = u @ fst (snd st1)" "fst st1 = rev u @ fst st"
    by blast
  from 5(2) [OF m1 m2] obtain v where v: "v \<in> lang ic b" "fst (snd st1) = v @ fst (snd st')" "fst st' = rev v @ fst st1"
    by blast
  have "u @ v \<in> lang ic (Cat a b)" using u(1) v(1) by auto
  moreover have "fst (snd st) = (u @ v) @ fst (snd st')" using u(2) v(2) by simp
  moreover have "fst st' = rev (u @ v) @ fst st" using u(3) v(3) by simp
  ultimately show ?case by blast
next
  case (6 ic a b st)
  then show ?case by (fastforce simp add: re_match_step)
next
  case (7 ic n a l r g)
  then show ?case by (fastforce simp add: re_match_step)
next
  case (8 ic lo hi a l r g)
  from Rep_mem [THEN iffD1, OF 8(3)] consider (stop) "lo = 0" "st' = (l, r, g)"
    | (iter) l1 r1 g1 where "hi \<noteq> Some 0" "(l1, r1, g1) \<in> set (re_match ic a (l, r, g))"
        "0 < lo \<or> length r1 < length r"
        "st' \<in> set (re_match ic (Rep (lo - 1) (map_option (\<lambda>h. h - 1) hi) a) (l1, r1, g1))"
    by blast
  then show ?case
  proof cases
    case stop
    have "[] \<in> lang ic (Rep lo hi a)"
      using stop by (auto intro!: exI [of _ "[]"] split: option.splits)
    then show ?thesis using stop by auto
  next
    case iter
    from 8(1) [OF iter(1,2)] obtain u where u: "u \<in> lang ic a" "r = u @ r1" "l1 = rev u @ l"
      by auto
    from 8(2) [OF iter(1,2) refl refl iter(3,4)] obtain v where
      v: "v \<in> lang ic (Rep (lo - 1) (map_option (\<lambda>h. h - 1) hi) a)"
         "r1 = v @ fst (snd st')" "fst st' = rev v @ l1"
      by auto
    from v(1) obtain ws where ws: "v = concat ws" "set ws \<subseteq> lang ic a" "lo - 1 \<le> length ws"
      "case hi of None \<Rightarrow> True | Some h \<Rightarrow> length ws \<le> h - 1"
      by (auto split: option.splits)
    have "u @ v = concat (u # ws)" using ws(1) by simp
    moreover have "set (u # ws) \<subseteq> lang ic a" using u(1) ws(2) by simp
    moreover have "lo \<le> length (u # ws)" using ws(3) by simp
    moreover have "case hi of None \<Rightarrow> True | Some h \<Rightarrow> length (u # ws) \<le> h"
      using ws(4) iter(1) by (auto split: option.splits)
    ultimately have "u @ v \<in> lang ic (Rep lo hi a)"
      unfolding lang.simps by blast
    moreover have "r = (u @ v) @ fst (snd st')" using u(2) v(2) by simp
    moreover have "fst st' = rev (u @ v) @ l" using u(3) v(3) by simp
    ultimately show ?thesis by (metis fst_conv snd_conv)
  qed
qed

subsection \<open>No pattern of the scripts matches the empty string\<close>

lemma concat_minlen: "\<forall>x \<in> set ws. m \<le> length x \<Longrightarrow> length ws * m \<le> length (concat ws)"
  by (induction ws) auto

lemma lang_minlen: "w \<in> lang ic e \<Longrightarrow> minlen e \<le> length w"
proof (induction e arbitrary: w)
  case (Cat a b)
  then show ?case by (fastforce simp add: add_mono)
next
  case (Alt a b)
  from Alt.prems consider "w \<in> lang ic a" | "w \<in> lang ic b" by auto
  then show ?case
  proof cases
    case 1
    from Alt.IH(1) [OF this] show ?thesis by (simp add: min.coboundedI1)
  next
    case 2
    from Alt.IH(2) [OF this] show ?thesis by (simp add: min.coboundedI2)
  qed
next
  case (Rep lo hi a)
  from Rep.prems obtain ws where ws: "w = concat ws" "set ws \<subseteq> lang ic a" "lo \<le> length ws"
    by auto
  from ws(2) Rep.IH have "\<forall>x \<in> set ws. minlen a \<le> length x" by auto
  from concat_minlen [OF this] have "length ws * minlen a \<le> length w" by (simp add: ws(1))
  moreover have "lo * minlen a \<le> length ws * minlen a" using ws(3) by (rule mult_le_mono1)
  ultimately show ?case by (simp only: minlen.simps)
qed auto

lemma minlen_patterns: "e \<in> set all_patterns \<Longrightarrow> 0 < minlen e"
  by (auto simp add: all_patterns_def relationship_patterns_def redacted_patterns_def
      name_pattern_def name_pattern_simple_def text_pattern_def rel_is_def rel_and_def
      rel_works_def rel_knows_def rel_met_def red_is_def red_and_left_def red_and_right_def
      red_works_left_def red_works_right_def entity_def seq_def str_def plus_def star_def
      upper_cls_def lower_cls_def space_cls_def)

lemma patterns_consume:
  assumes "e \<in> set all_patterns" "st' \<in> set (re_match ic e st)"
  shows "length (fst (snd st')) < length (fst (snd st))"
proof -
  from re_match_sound [OF assms(2)] obtain w where
    w: "w \<in> lang ic e" "fst (snd st) = w @ fst (snd st')" by blast
  from lang_minlen [OF w(1)] minlen_patterns [OF assms(1)] have "w \<noteq> []" by (cases w) simp_all
  with w(2) show ?thesis by simp
qed

subsection \<open>Names\<close>

declare cap_seq.simps [simp del]

lemma name_pattern_eq: "name_pattern = name_re 1" "name_pattern_simple = name_re 2"
  by (simp_all add: name_pattern_def name_pattern_simple_def name_re_def)

lemma cap_word_no_space: "cap_word k w \<Longrightarrow> \<forall>c \<in> set w. \<not> is_space c"
  by (auto simp add: cap_word_def list_all_iff upper_not_space lower_not_space split: list.splits)

lemma no_space_word:
  "\<forall>c \<in> set w. \<not> is_space c \<Longrightarrow>
     takeWhile (\<lambda>c. \<not> is_space c) w = w \<and> dropWhile (\<lambda>c. \<not> is_space c) w = []"
  by (simp add: takeWhile_eq_all_conv)

lemma cap_seq_one:
  assumes "cap_word k w"
  shows "cap_seq k w"
proof -
  from no_space_word [OF cap_word_no_space [OF assms]]
  have tw: "takeWhile (\<lambda>c. \<not> is_space c) w = w" "dropWhile (\<lambda>c. \<not> is_space c) w = []"
    by simp_all
  show ?thesis
    by (subst cap_seq.simps) (simp only: Let_def tw assms if_True if_False not_True_eq_False refl)
qed

lemma cap_seq_hd: "cap_seq k t \<Longrightarrow> t \<noteq> [] \<and> \<not> is_space (hd t)"
proof -
  assume "cap_seq k t"
  then have w: "cap_word k (takeWhile (\<lambda>c. \<not> is_space c) t)"
    by (subst (asm) cap_seq.simps) (simp add: Let_def split: if_splits)
  then have "takeWhile (\<lambda>c. \<not> is_space c) t \<noteq> []" by (auto simp add: cap_word_def)
  then show ?thesis by (cases t) (auto split: if_splits)
qed

lemma cap_seq_more:
  assumes "cap_word k w" "sp \<noteq> []" "list_all is_space sp" "cap_seq k t"
  shows "cap_seq k (w @ sp @ t)"
proof -
  from assms(2,3) obtain c cs where sp: "sp = c # cs" "is_space c"
    by (cases sp) auto
  have ns: "\<forall>c \<in> set w. \<not> is_space c" using assms(1) by (rule cap_word_no_space)
  have tw: "takeWhile (\<lambda>c. \<not> is_space c) (w @ sp @ t) = w"
    using ns sp by (simp add: takeWhile_append2)
  have dw: "dropWhile (\<lambda>c. \<not> is_space c) (w @ sp @ t) = sp @ t"
    using ns sp by (simp add: dropWhile_append2)
  from cap_seq_hd [OF assms(4)] have "dropWhile is_space t = t" by (cases t) auto
  then have dd: "dropWhile is_space (sp @ t) = t"
    using assms(3) by (simp add: dropWhile_append2 list_all_iff)
  show ?thesis
    by (subst cap_seq.simps) (simp add: Let_def tw dw dd assms(1,4))
qed

lemma concat_singletons:
  "set ws \<subseteq> {[c] |c. P c} \<Longrightarrow> length (concat ws) = length ws \<and> list_all P (concat ws)"
  by (induction ws) auto

lemma in_cls_single: "in_cls False [i] c = in_item i c"
  by (simp add: in_cls_def)

lemma lang_lowers:
  "v \<in> lang False (Rep k None lower_cls) \<Longrightarrow> k \<le> length v \<and> list_all (in_range CHR ''a'' CHR ''z'') v"
  using concat_singletons [of _ "in_range CHR ''a'' CHR ''z''"]
  by (auto simp add: lower_cls_def in_cls_single)

lemma lang_spaces:
  "v \<in> lang False (plus space_cls) \<Longrightarrow> v \<noteq> [] \<and> list_all is_space v"
proof -
  assume "v \<in> lang False (plus space_cls)"
  then obtain ws where ws: "v = concat ws" "set ws \<subseteq> {[c] |c. is_space c}" "1 \<le> length ws"
    by (auto simp add: plus_def space_cls_def in_cls_single)
  from concat_singletons [OF ws(2)] have "length v = length ws" "list_all is_space v"
    by (simp_all add: ws(1))
  with ws(3) show ?thesis by (cases v) auto
qed

lemma lang_upper: "v \<in> lang False upper_cls \<Longrightarrow> \<exists>c. v = [c] \<and> in_range CHR ''A'' CHR ''Z'' c"
  by (auto simp add: upper_cls_def in_cls_single)

lemma lang_word:
  "v \<in> lang False (Cat upper_cls (Cat (Rep k None lower_cls) Eps)) \<Longrightarrow> cap_word k v"
  using lang_lowers lang_upper by (fastforce simp add: cap_word_def)

lemma lang_more:
  assumes "set ws \<subseteq> lang False (seq [plus space_cls, upper_cls, Rep k None lower_cls])" "cap_word k w"
  shows "cap_seq k (w @ concat ws)"
  using assms
proof (induction ws arbitrary: w)
  case Nil
  then show ?case by (simp add: cap_seq_one)
next
  case (Cons x ws)
  from Cons.prems(1) have "x \<in> lang False (Cat (plus space_cls) (Cat upper_cls (Cat (Rep k None lower_cls) Eps)))"
    by (simp add: seq_def)
  then obtain sp v where x: "x = sp @ v" "sp \<in> lang False (plus space_cls)"
    "v \<in> lang False (Cat upper_cls (Cat (Rep k None lower_cls) Eps))"
    unfolding lang.simps(5) [of False "plus space_cls"] by blast
  from lang_word [OF x(3)] have v: "cap_word k v" .
  from Cons.IH [OF _ v] Cons.prems(1) have "cap_seq k (v @ concat ws)" by simp
  with lang_spaces [OF x(2)] Cons.prems(2) have "cap_seq k (w @ sp @ (v @ concat ws))"
    by (intro cap_seq_more) auto
  then show ?case by (simp add: x(1))
qed

lemma lang_name_re: "w \<in> lang False (name_re k) \<Longrightarrow> cap_seq k w"
proof -
  assume "w \<in> lang False (name_re k)"
  then obtain u lows ws where w: "w = u @ lows @ concat ws" "u \<in> lang False upper_cls"
    "lows \<in> lang False (Rep k None lower_cls)"
    "set ws \<subseteq> lang False (seq [plus space_cls, upper_cls, Rep k None lower_cls])"
    by (auto simp add: name_re_def seq_def star_def)
  have "u @ lows \<in> lang False (Cat upper_cls (Cat (Rep k None lower_cls) Eps))"
    using w(2,3) by auto
  then have "cap_word k (u @ lows)" by (rule lang_word)
  from lang_more [OF w(4) this] show ?thesis by (simp add: w(1))
qed

lemma findall_from_sound:
  "f \<in> set (findall_from ic e l r) \<Longrightarrow> ngroups e = 0 \<Longrightarrow> \<exists>w. f = Str w \<and> w \<in> lang ic e"
proof (induction ic e l r rule: findall_from.induct)
  case (1 ic e l)
  then show ?case by simp
next
  case (2 ic e l c cs)
  show ?case
  proof (cases "re_match ic e (l, c # cs, [])")
    case Nil
    with 2 show ?thesis by simp
  next
    case (Cons st sts)
    obtain l' r' g' where st: "st = (l', r', g')" by (cases st)
    from Cons st have "(l', r', g') \<in> set (re_match ic e (l, c # cs, []))" by simp
    from re_match_sound [OF this] obtain w where w: "w \<in> lang ic e" "c # cs = w @ r'" "l' = rev w @ l"
      by auto
    show ?thesis
    proof (cases "length r' < length (c # cs)")
      case True
      with 2(4) Cons st have "f = result_of e (rev (take (length l' - length l) l')) g' \<or> f \<in> set (findall_from ic e l' r')"
        by auto
      then show ?thesis
      proof
        assume "f = result_of e (rev (take (length l' - length l) l')) g'"
        then show ?thesis using w 2(5) by (simp add: result_of_def)
      next
        assume "f \<in> set (findall_from ic e l' r')"
        from 2(2) [OF Cons st [symmetric] refl True this 2(5)] show ?thesis .
      qed
    next
      case False
      with 2(4) Cons st have "f \<in> set (findall_from ic e (c # l) cs)" by auto
      from 2(3) [OF Cons st [symmetric] refl False this 2(5)] show ?thesis .
    qed
  qed
qed

lemma fold_add_name:
  "name \<in> fold (add_name stop) fs A \<longleftrightarrow>
     name \<in> A \<or> (Str name \<in> set fs \<and> name \<notin> stop \<and> 2 < length name)"
proof (induction fs arbitrary: A)
  case Nil
  then show ?case by simp
next
  case (Cons f fs)
  then show ?case by (cases f) auto
qed

lemma ngroups_name_re [simp]: "ngroups (name_re k) = 0"
  by (simp add: name_re_def seq_def star_def plus_def upper_cls_def lower_cls_def space_cls_def)

lemma names_sound:
  "name \<in> fold (add_name stop) (findall False (name_re k) text) {} \<Longrightarrow>
     cap_seq k name \<and> name \<notin> stop \<and> 3 \<le> length name"
proof -
  assume "name \<in> fold (add_name stop) (findall False (name_re k) text) {}"
  then have m: "Str name \<in> set (findall_from False (name_re k) [] text)" and r: "name \<notin> stop" "2 < length name"
    by (simp_all add: fold_add_name findall_def)
  from findall_from_sound [OF m] have "name \<in> lang False (name_re k)" by simp
  then show ?thesis using r lang_name_re by auto
qed

lemma names_extract:
  "fst (extract_names_and_relationships text) = fold (add_name common_words) (findall False name_pattern text) {}"
  by (simp add: extract_names_and_relationships_def Let_def)

lemma names_analyze:
  "snd (fst (analyze_pdf_binary disk file_path w)) =
     (case disk file_path of ReadError e \<Rightarrow> {}
      | Content content \<Rightarrow> fold (add_name common_words_simple)
          (findall False name_pattern_simple (join '' '' (map text_of (findall False text_pattern content)))) {})"
  by (simp add: analyze_pdf_binary_def Let_def split: file_read.splits)

text \<open>
  C1, as stated, fails where the specification's pattern chains words by single spaces: the
  code chains them by any run of whitespace, so it returns a name with two spaces in it, and one
  that runs over a line break.
\<close>

theorem names_single_spaced_counterexample:
  "''Jane  Doe'' \<in> fst (extract_names_and_relationships ''Jane  Doe'')
   \<and> \<not> single_spaced 1 ''Jane  Doe''
   \<and> [CHR ''J'', CHR ''o'', CHR 0x0A, CHR ''A'', CHR ''l'', CHR ''i'']
        \<in> fst (extract_names_and_relationships [CHR ''J'', CHR ''o'', CHR 0x0A, CHR ''A'', CHR ''l'', CHR ''i''])
   \<and> \<not> single_spaced 1 [CHR ''J'', CHR ''o'', CHR 0x0A, CHR ''A'', CHR ''l'', CHR ''i'']
   \<and> ''Jane  Doe'' \<in> snd (fst (analyze_pdf_binary (\<lambda>_. Content ''Jane  Doe met'') ''f.pdf''
        \<lparr>stdout = [], files = Map.empty\<rparr>))
   \<and> \<not> single_spaced 2 ''Jane  Doe''"
  by code_simp

text \<open>
  C1, amended. Every name that either script returns is a sequence of capitalised words (a
  letter of \<open>A-Z\<close> followed by letters of \<open>a-z\<close>: at least one in \<open>extract_pdf_text.py\<close>, at
  least two in \<open>simple_pdf_analysis.py\<close>) chained by runs of one or more whitespace characters,
  is not in that script's stoplist, and has at least three characters.
\<close>

theorem names_well_formed:
  "(\<forall>name \<in> fst (extract_names_and_relationships text).
      cap_seq 1 name \<and> name \<notin> common_words \<and> 3 \<le> length name)
   \<and> (\<forall>name \<in> snd (fst (analyze_pdf_binary disk file_path w)).
      cap_seq 2 name \<and> name \<notin> common_words_simple \<and> 3 \<le> length name)"
  using names_sound [of _ common_words 1 "text"] names_sound [of _ common_words_simple 2]
  by (auto simp add: names_extract names_analyze name_pattern_eq split: file_read.splits)

theorem names_well_formed_witness:
  "''Jane Doe'' \<in> fst (extract_names_and_relationships ''Al met Jane Doe'')
   \<and> cap_seq 1 ''Jane Doe'' \<and> ''Jane Doe'' \<notin> common_words \<and> 3 \<le> length ''Jane Doe''
   \<and> ''Jane Doe'' \<in> snd (fst (analyze_pdf_binary (\<lambda>_. Content ''Al met Jane Doe'') ''f.pdf'' \<lparr>stdout = [], files = Map.empty\<rparr>))
   \<and> cap_seq 2 ''Jane Doe'' \<and> ''Jane Doe'' \<notin> common_words_simple"
proof -
  have a: "''Jane Doe'' \<in> fst (extract_names_and_relationships ''Al met Jane Doe'')"
    by code_simp
  have b: "''Jane Doe'' \<in> snd (fst (analyze_pdf_binary (\<lambda>_. Content ''Al met Jane Doe'') ''f.pdf'' \<lparr>stdout = [], files = Map.empty\<rparr>))"
    by code_simp
  from names_well_formed [of "''Al met Jane Doe''" "\<lambda>_. Content ''Al met Jane Doe''" "''f.pdf''" "\<lparr>stdout = [], files = Map.empty\<rparr>"] a b
  show ?thesis by blast
qed

subsection \<open>What the name patterns match\<close>

lemma Cat_mem:
  "st' \<in> set (re_match ic (Cat a b) st) \<longleftrightarrow> (\<exists>st1 \<in> set (re_match ic a st). st' \<in> set (re_match ic b st1))"
  by (auto simp add: re_match_step)

lemma Rep_complete:
  assumes a: "\<And>w l r g. w \<in> lang ic a \<Longrightarrow> \<exists>g'. (rev w @ l, r, g') \<in> set (re_match ic a (l, w @ r, g))"
  shows "set ws \<subseteq> lang ic a \<Longrightarrow> lo \<le> length ws \<Longrightarrow> (case hi of None \<Rightarrow> True | Some h \<Rightarrow> length ws \<le> h)
    \<Longrightarrow> \<exists>g'. (rev (concat ws) @ l, r, g') \<in> set (re_match ic (Rep lo hi a) (l, concat ws @ r, g))"
proof (induction ws arbitrary: lo hi l g)
  case Nil
  then have "(l, r, g) \<in> set (re_match ic (Rep lo hi a) (l, r, g))"
    by (subst Rep_mem) simp
  then show ?case by auto
next
  case (Cons u ws)
  show ?case
  proof (cases "u = [] \<and> lo = 0")
    case True
    have "case hi of None \<Rightarrow> True | Some h \<Rightarrow> length ws \<le> h"
      using Cons.prems(3) by (auto split: option.splits)
    from Cons.IH [OF _ _ this, of 0 l g] Cons.prems(1) True show ?thesis by simp
  next
    case False
    from a [of u l "concat ws @ r" g] Cons.prems(1) obtain g1 where
      m1: "(rev u @ l, concat ws @ r, g1) \<in> set (re_match ic a (l, u @ concat ws @ r, g))"
      by auto
    have c: "0 < lo \<or> length (concat ws @ r) < length (u @ concat ws @ r)"
      using False by auto
    have nz: "hi \<noteq> Some 0" using Cons.prems(3) by (auto split: option.splits)
    have "case map_option (\<lambda>h. h - 1) hi of None \<Rightarrow> True | Some h \<Rightarrow> length ws \<le> h"
      using Cons.prems(3) by (auto split: option.splits)
    moreover have "lo - 1 \<le> length ws" using Cons.prems(2) by simp
    moreover have "set ws \<subseteq> lang ic a" using Cons.prems(1) by simp
    ultimately have "\<exists>g'. (rev (concat ws) @ rev u @ l, r, g') \<in> set (re_match ic (Rep (lo - 1) (map_option (\<lambda>h. h - 1) hi) a) (rev u @ l, concat ws @ r, g1))"
      using Cons.IH [of "lo - 1" "map_option (\<lambda>h. h - 1) hi" "rev u @ l" g1] by blast
    then obtain g' where
      m2: "(rev (concat ws) @ rev u @ l, r, g') \<in> set (re_match ic (Rep (lo - 1) (map_option (\<lambda>h. h - 1) hi) a) (rev u @ l, concat ws @ r, g1))"
      by auto
    have "(rev (concat (u # ws)) @ l, r, g') \<in> set (re_match ic (Rep lo hi a) (l, concat (u # ws) @ r, g))"
      apply (subst Rep_mem)
      apply (rule disjI2)
      apply (rule exI [of _ "rev u @ l"], rule exI [of _ "concat ws @ r"], rule exI [of _ g1])
      using nz m1 c m2 by simp
    then show ?thesis by blast
  qed
qed

lemma re_match_complete:
  "w \<in> lang ic e \<Longrightarrow> bnd_free e \<Longrightarrow> \<exists>g'. (rev w @ l, r, g') \<in> set (re_match ic e (l, w @ r, g))"
proof (induction e arbitrary: w l r g)
  case Eps
  then show ?case by (simp add: re_match_step)
next
  case (Lit p)
  then show ?case by (auto simp add: re_match_step)
next
  case (Cls its)
  then show ?case by (auto simp add: re_match_step)
next
  case Bnd
  then show ?case by simp
next
  case (Cat a b)
  from Cat.prems obtain u v where uv: "w = u @ v" "u \<in> lang ic a" "v \<in> lang ic b" by auto
  from Cat.IH(1) [OF uv(2), of l "v @ r" g] Cat.prems(2) obtain g1 where
    m1: "(rev u @ l, v @ r, g1) \<in> set (re_match ic a (l, u @ v @ r, g))" by auto
  from Cat.IH(2) [OF uv(3), of "rev u @ l" r g1] Cat.prems(2) obtain g2 where
    m2: "(rev v @ rev u @ l, r, g2) \<in> set (re_match ic b (rev u @ l, v @ r, g1))" by auto
  from m1 m2 have "(rev w @ l, r, g2) \<in> set (re_match ic (Cat a b) (l, w @ r, g))"
    unfolding Cat_mem uv(1) by (auto intro!: bexI [of _ "(rev u @ l, v @ r, g1)"])
  then show ?case by blast
next
  case (Alt a b)
  then show ?case by (fastforce simp add: re_match_step)
next
  case (Rep lo hi a)
  from Rep.prems obtain ws where ws: "w = concat ws" "set ws \<subseteq> lang ic a" "lo \<le> length ws"
    "case hi of None \<Rightarrow> True | Some h \<Rightarrow> length ws \<le> h" by auto
  have "\<And>w l r g. w \<in> lang ic a \<Longrightarrow> \<exists>g'. (rev w @ l, r, g') \<in> set (re_match ic a (l, w @ r, g))"
    using Rep.IH Rep.prems(2) by simp
  from Rep_complete [of ic a, OF this ws(2,3,4)] show ?case by (simp add: ws(1))
next
  case (Grp n a)
  from Grp.IH [of w l r g] Grp.prems obtain g' where
    "(rev w @ l, r, g') \<in> set (re_match ic a (l, w @ r, g))" by auto
  then have "(rev w @ l, r, (n, rev (take (length (rev w @ l) - length l) (rev w @ l))) # g') \<in> set (re_match ic (Grp n a) (l, w @ r, g))"
    by (force simp add: re_match_step)
  then show ?case by blast
qed


lemma letters_lang:
  "list_all (in_range CHR ''a'' CHR ''z'') v \<Longrightarrow> k \<le> length v \<Longrightarrow> v \<in> lang False (Rep k None lower_cls)"
proof -
  assume a: "list_all (in_range CHR ''a'' CHR ''z'') v" "k \<le> length v"
  have "v = concat (map (\<lambda>c. [c]) v)" by (induction v) auto
  moreover have "set (map (\<lambda>c. [c]) v) \<subseteq> lang False lower_cls"
    using a(1) by (auto simp add: lower_cls_def in_cls_single list_all_iff)
  moreover have "k \<le> length (map (\<lambda>c. [c]) v)" using a(2) by simp
  ultimately show ?thesis
    by (simp only: lang.simps mem_Collect_eq) (rule exI [of _ "map (\<lambda>c. [c]) v"], simp)
qed

lemma spaces_lang:
  "list_all is_space v \<Longrightarrow> v \<noteq> [] \<Longrightarrow> v \<in> lang False (plus space_cls)"
proof -
  assume a: "list_all is_space v" "v \<noteq> []"
  have "v = concat (map (\<lambda>c. [c]) v)" by (induction v) auto
  moreover have "set (map (\<lambda>c. [c]) v) \<subseteq> lang False space_cls"
    using a(1) by (auto simp add: space_cls_def in_cls_single list_all_iff)
  moreover have "1 \<le> length (map (\<lambda>c. [c]) v)" using a(2) by (cases v) auto
  ultimately show ?thesis
    by (simp only: plus_def lang.simps mem_Collect_eq) (rule exI [of _ "map (\<lambda>c. [c]) v"], simp)
qed

lemma Cat_memI:
  "st1 \<in> set (re_match ic a st) \<Longrightarrow> st' \<in> set (re_match ic b st1) \<Longrightarrow> st' \<in> set (re_match ic (Cat a b) st)"
  unfolding Cat_mem by blast

lemma name_re_unfold:
  "name_re k = Cat Bnd (Cat upper_cls (Cat (Rep k None lower_cls) (Cat (star (iter_re k)) (Cat Bnd Eps))))"
  by (simp add: name_re_def seq_def iter_re_def)

lemma cap_seq_shape:
  "cap_seq k s \<Longrightarrow>
     \<exists>c lows ws. s = c # lows @ concat ws \<and> in_range CHR ''A'' CHR ''Z'' c
       \<and> lows \<in> lang False (Rep k None lower_cls)
       \<and> set ws \<subseteq> lang False (iter_re k) \<and> is_word (last s)"
proof (induction k s rule: cap_seq.induct)
  case (1 k s)
  define w where "w = takeWhile (\<lambda>c. \<not> is_space c) s"
  define rest where "rest = dropWhile (\<lambda>c. \<not> is_space c) s"
  have s: "s = w @ rest" by (simp add: w_def rest_def)
  from 1(2) have cw: "cap_word k w"
    by (subst (asm) cap_seq.simps) (simp add: Let_def w_def split: if_splits)
  then obtain c lows where w: "w = c # lows" "in_range CHR ''A'' CHR ''Z'' c" "k \<le> length lows"
    "list_all (in_range CHR ''a'' CHR ''z'') lows"
    by (auto simp add: cap_word_def split: list.splits)
  have lows: "lows \<in> lang False (Rep k None lower_cls)" by (rule letters_lang [OF w(4,3)])
  have lastw: "is_word (last w)"
    using w by (cases lows rule: rev_cases) (auto simp add: upper_is_word lower_is_word list_all_iff)
  show ?case
  proof (cases "rest = []")
    case True
    have "s = c # lows @ concat []" using s True w(1) by simp
    moreover have "is_word (last s)" using s True lastw by simp
    moreover have "set [] \<subseteq> lang False (iter_re k)" by simp
    ultimately show ?thesis using w(2) lows
      by (intro exI [of _ c] exI [of _ lows] exI [of _ "[]"] conjI)
  next
    case False
    define sp where "sp = takeWhile is_space rest"
    define t where "t = dropWhile is_space rest"
    have rest: "rest = sp @ t" by (simp add: sp_def t_def)
    from False have "is_space (hd rest)"
      unfolding rest_def using hd_dropWhile [of "\<lambda>c. \<not> is_space c" s] by auto
    with False have spne: "sp \<noteq> []" by (cases rest) (auto simp add: sp_def)
    have spall: "list_all is_space sp"
      unfolding sp_def list_all_iff by (auto dest: set_takeWhileD)
    from 1(2) cw False have ct: "cap_seq k t"
      by (subst (asm) cap_seq.simps) (simp add: Let_def w_def [symmetric] rest_def [symmetric] t_def)
    have nn: "\<not> \<not> cap_word k w" using cw by simp
    from 1(1) [OF w_def rest_def nn False] ct [unfolded t_def]
    have "\<exists>c lows ws. t = c # lows @ concat ws \<and> in_range CHR ''A'' CHR ''Z'' c
       \<and> lows \<in> lang False (Rep k None lower_cls)
       \<and> set ws \<subseteq> lang False (iter_re k) \<and> is_word (last t)"
      unfolding t_def .
    then obtain c' lows' ws where t: "t = c' # lows' @ concat ws" "in_range CHR ''A'' CHR ''Z'' c'"
      "lows' \<in> lang False (Rep k None lower_cls)" "set ws \<subseteq> lang False (iter_re k)" "is_word (last t)"
      by blast
    have "[c'] \<in> lang False upper_cls" using t(2) by (simp add: upper_cls_def in_cls_single)
    with t(3) have "[c'] @ lows' @ [] \<in> lang False (Cat upper_cls (Cat (Rep k None lower_cls) Eps))"
      unfolding lang.simps(5) lang.simps(1) by blast
    with spaces_lang [OF spall spne]
    have "sp @ [c'] @ lows' @ [] \<in> lang False (Cat (plus space_cls) (Cat upper_cls (Cat (Rep k None lower_cls) Eps)))"
      unfolding lang.simps(5) [of False "plus space_cls"] by blast
    then have "sp @ [c'] @ lows' \<in> lang False (iter_re k)"
      by (simp add: iter_re_def seq_def)
    then have "set ((sp @ [c'] @ lows') # ws) \<subseteq> lang False (iter_re k)" using t(4) by simp
    moreover have "s = c # lows @ concat ((sp @ [c'] @ lows') # ws)"
      using s rest w(1) t(1) by simp
    moreover have "is_word (last s)" using s rest t(1,5) by simp
    ultimately show ?thesis using w(2) lows
      by (intro exI [of _ c] exI [of _ lows] exI [of _ "(sp @ [c'] @ lows') # ws"] conjI)
  qed
qed

lemma fullmatch_name_re: "fullmatch False (name_re k) s \<longleftrightarrow> cap_seq k s"
proof
  assume "fullmatch False (name_re k) s"
  then obtain l' g' where "(l', [], g') \<in> set (re_match False (name_re k) ([], s, []))"
    by (auto simp add: fullmatch_def list_ex_iff)
  from re_match_sound [OF this] have "s \<in> lang False (name_re k)" by simp
  then show "cap_seq k s" by (rule lang_name_re)
next
  assume "cap_seq k s"
  from cap_seq_shape [OF this] obtain c lows ws where
    s: "s = c # lows @ concat ws" "in_range CHR ''A'' CHR ''Z'' c"
       "lows \<in> lang False (Rep k None lower_cls)"
       "set ws \<subseteq> lang False (iter_re k)" "is_word (last s)"
    by blast
  have b0: "([], s, []) \<in> set (re_match False Bnd ([], s, []))"
    using s(1,2) by (simp add: re_match_step at_boundary_def upper_is_word)
  have bf: "bnd_free upper_cls" "bnd_free (Rep k None lower_cls)" "bnd_free (star (iter_re k))"
    by (simp_all add: star_def iter_re_def seq_def plus_def upper_cls_def lower_cls_def space_cls_def)
  have "[c] \<in> lang False upper_cls" using s(2) by (simp add: upper_cls_def in_cls_single)
  from re_match_complete [OF this bf(1), of "[]" "lows @ concat ws" "[]"] obtain g1 where
    m1: "([c], lows @ concat ws, g1) \<in> set (re_match False upper_cls ([], s, []))"
    unfolding s(1) by auto
  from re_match_complete [OF s(3) bf(2), of "[c]" "concat ws" g1] obtain g2 where
    m2: "(rev lows @ [c], concat ws, g2) \<in> set (re_match False (Rep k None lower_cls) ([c], lows @ concat ws, g1))"
    by blast
  have "concat ws \<in> lang False (star (iter_re k))"
    unfolding star_def lang.simps using s(4) by auto
  from re_match_complete [OF this bf(3), of "rev lows @ [c]" "[]" g2] obtain g3 where
    m3: "(rev (concat ws) @ rev lows @ [c], [], g3) \<in> set (re_match False (star (iter_re k)) (rev lows @ [c], concat ws, g2))"
    by auto
  have rs: "rev (concat ws) @ rev lows @ [c] = rev s" by (simp add: s(1))
  have "s \<noteq> []" using s(1) by simp
  then have rs': "rev s = last s # rev (butlast s)" by (cases s rule: rev_cases) simp_all
  have b1: "(rev s, [], g3) \<in> set (re_match False Bnd (rev s, [], g3))"
    using s(5) by (simp add: re_match_step at_boundary_def rs')
  have e: "(rev s, [], g3) \<in> set (re_match False Eps (rev s, [], g3))"
    by (simp add: re_match_step)
  note c5 = Cat_memI [OF b1 e]
  note c4 = Cat_memI [OF m3 [unfolded rs] c5]
  note c3 = Cat_memI [OF m2 c4]
  note c2 = Cat_memI [OF m1 c3]
  note c1 = Cat_memI [OF b0 c2]
  have "(rev s, [], g3) \<in> set (re_match False (name_re k) ([], s, []))"
    unfolding name_re_unfold by (rule c1)
  then show "fullmatch False (name_re k) s"
    by (auto simp add: fullmatch_def list_ex_iff)
qed

text \<open>
  C4, amended. The two name patterns are one syntax tree up to the least number of trailing
  letters of \<open>a-z\<close> per word, which is 1 in \<open>extract_pdf_text.py\<close> and 2 in
  \<open>simple_pdf_analysis.py\<close>; each pattern matches in full exactly the capitalised word
  sequences with that least number.
\<close>

theorem name_patterns_differ:
  "name_pattern = name_re 1 \<and> name_pattern_simple = name_re 2
   \<and> fullmatch False name_pattern s = cap_seq 1 s
   \<and> fullmatch False name_pattern_simple s = cap_seq 2 s"
  by (simp add: name_pattern_eq fullmatch_name_re)


text \<open>
  C4, as stated, fails: the pattern of \<open>extract_pdf_text.py\<close> accepts a word with one trailing
  letter, so it does not ask for three.
\<close>

theorem name_pattern_one_letter_counterexample:
  "fullmatch False name_pattern ''Al'' \<and> \<not> cap_seq 3 ''Al''
   \<and> findall False name_pattern ''Al or Bo'' = [Str ''Al'', Str ''Bo'']
   \<and> findall False name_pattern_simple ''Al or Bo'' = []"
  by code_simp

subsection \<open>Output and files\<close>

lemma findall_Nil [simp]: "findall ic e [] = []"
  by (simp add: findall_def)

lemma stdout_print [simp]: "stdout (print s w) = stdout w @ [s]"
  by (simp add: print_def)

lemma files_print [simp]: "files (print s w) = files w"
  by (simp add: print_def)


lemma files_fold_print [simp]: "files (fold (\<lambda>x. print (f x)) xs w) = files w"
  by (induction xs arbitrary: w) simp_all

subsection \<open>The empty text\<close>

text \<open>
  C8. On the text of length zero the classification returns the empty set and the relationship
  extraction the empty list. Both functions are total and have no failing branch, so nothing is
  raised. The byte scan of an empty content gives the empty readable text and the empty set too.
\<close>

theorem empty_text:
  "extract_names_and_relationships [] = ({}, [])
   \<and> fst (analyze_pdf_binary (\<lambda>_. Content []) file_path w) = (Some [], {})"
  by (simp add: extract_names_and_relationships_def relationship_patterns_def
      redacted_patterns_def analyze_pdf_binary_def Let_def)

text \<open>
  C10. A document of no page is read with success and gives the empty text; the driver then
  does for it exactly what it does after a failed read: nothing is classified, printed or
  written.
\<close>

theorem empty_text_like_failure:
  "fst (extract_text_from_pdf (\<lambda>_. Pages []) pdf_path w) = Some []
   \<and> report_document rep sample (Some []) w = report_document rep sample None w
   \<and> report_document rep sample None w = w"
  by (simp add: extract_text_from_pdf_def report_document_def)

subsection \<open>The sample files\<close>

lemma files_extract_text [simp]: "files (snd (extract_text_from_pdf pdfs p w)) = files w"
  by (simp add: extract_text_from_pdf_def split: pdf.splits)

lemma fst_extract_text: "fst (extract_text_from_pdf pdfs p w) = fst (extract_text_from_pdf pdfs p w')"
  by (simp add: extract_text_from_pdf_def split: pdf.splits)

lemma files_report_document:
  "files (report_document rep sample text w) =
     (case text of None \<Rightarrow> files w
      | Some t \<Rightarrow> if t = [] then files w else (files w)(sample \<mapsto> (''utf-8'', take 5000 t)))"
  by (simp add: report_document_def write_text_def Let_def split: option.splits prod.splits)

lemma files_main:
  "files (main rep pdfs pdf1 pdf2 w) =
     (let f1 = (case fst (extract_text_from_pdf pdfs pdf1 w) of None \<Rightarrow> files w
                | Some t \<Rightarrow> if t = [] then files w
                            else (files w)(''pdf1_sample.txt'' \<mapsto> (''utf-8'', take 5000 t)))
      in case fst (extract_text_from_pdf pdfs pdf2 w) of None \<Rightarrow> f1
         | Some t \<Rightarrow> if t = [] then f1 else f1(''pdf2_sample.txt'' \<mapsto> (''utf-8'', take 5000 t)))"
proof -
  obtain t1 w1 where e1: "extract_text_from_pdf pdfs pdf1 (print ''=== ANALYZING FIRST PDF ==='' w) = (t1, w1)"
    by (cases "extract_text_from_pdf pdfs pdf1 (print ''=== ANALYZING FIRST PDF ==='' w)")
  have t1: "t1 = fst (extract_text_from_pdf pdfs pdf1 w)"
    using e1 fst_extract_text [of pdfs pdf1 w "print ''=== ANALYZING FIRST PDF ==='' w"] by simp
  have f1: "files w1 = files w"
    using e1 files_extract_text [of pdfs pdf1 "print ''=== ANALYZING FIRST PDF ==='' w"] by simp
  define w2' where "w2' = print (CHR 0x0A # ''=== ANALYZING SECOND PDF ==='') (report_document rep ''pdf1_sample.txt'' t1 w1)"
  obtain t2 w3 where e2: "extract_text_from_pdf pdfs pdf2 w2' = (t2, w3)"
    by (cases "extract_text_from_pdf pdfs pdf2 w2'")
  have t2: "t2 = fst (extract_text_from_pdf pdfs pdf2 w)"
    using e2 fst_extract_text [of pdfs pdf2 w w2'] by simp
  have f3: "files w3 = files (report_document rep ''pdf1_sample.txt'' t1 w1)"
    using e2 files_extract_text [of pdfs pdf2 w2'] by (simp add: w2'_def)
  have "main rep pdfs pdf1 pdf2 w = report_document rep ''pdf2_sample.txt'' t2 w3"
    using e1 e2 by (simp add: main_def Let_def w2'_def)
  then show ?thesis
    by (simp add: files_report_document f3 f1 t1 [symmetric] t2 [symmetric] Let_def split: option.splits)
qed

lemma take_min_length: "take (min n (length t)) t = take n t"
  by (simp add: min_def)

text \<open>
  C7, as stated, fails on a document of no page: its text is read with success and is empty, the
  block that writes the sample file is skipped, and a file of that name keeps its old content.
\<close>

theorem sample_file_unwritten_counterexample:
  "fst (extract_text_from_pdf (\<lambda>_. Pages []) ''a.pdf'' \<lparr>stdout = [], files = [''pdf1_sample.txt'' \<mapsto> (''utf-8'', ''old'')]\<rparr>) = Some []
   \<and> files (main (\<lambda>_. []) (\<lambda>_. Pages []) ''a.pdf'' ''b.pdf''
        \<lparr>stdout = [], files = [''pdf1_sample.txt'' \<mapsto> (''utf-8'', ''old'')]\<rparr>) ''pdf1_sample.txt''
       = Some (''utf-8'', ''old'')
   \<and> Some (''utf-8'', ''old'') \<noteq> Some (''utf-8'', take (min 5000 (length [])) [])"
  by (simp add: files_main extract_text_from_pdf_def)

text \<open>
  C7, amended. For every document whose text is read with success and is not empty, the sample
  file of that document holds, after the run, exactly the first \<open>min(5000, len(t))\<close> characters
  of the text, written with the encoding UTF-8, whatever the name held before.
\<close>

theorem sample_file_written:
  "(fst (extract_text_from_pdf pdfs pdf1 w) = Some t \<and> t \<noteq> [] \<longrightarrow>
      files (main rep pdfs pdf1 pdf2 w) ''pdf1_sample.txt'' = Some (''utf-8'', take (min 5000 (length t)) t))
   \<and> (fst (extract_text_from_pdf pdfs pdf2 w) = Some t \<and> t \<noteq> [] \<longrightarrow>
      files (main rep pdfs pdf1 pdf2 w) ''pdf2_sample.txt'' = Some (''utf-8'', take (min 5000 (length t)) t))"
  by (auto simp add: files_main Let_def take_min_length split: option.splits)

theorem sample_file_written_witness:
  "fst (extract_text_from_pdf (\<lambda>_. Pages [''Hi'', ''Bob'']) ''a.pdf'' \<lparr>stdout = [], files = [''pdf1_sample.txt'' \<mapsto> (''utf-8'', ''old'')]\<rparr>)
     = Some [CHR ''H'', CHR ''i'', CHR 0x0A, CHR ''B'', CHR ''o'', CHR ''b'', CHR 0x0A]
   \<and> files (main (\<lambda>_. []) (\<lambda>_. Pages [''Hi'', ''Bob'']) ''a.pdf'' ''b.pdf''
        \<lparr>stdout = [], files = [''pdf1_sample.txt'' \<mapsto> (''utf-8'', ''old'')]\<rparr>) ''pdf1_sample.txt''
       = Some (''utf-8'', [CHR ''H'', CHR ''i'', CHR 0x0A, CHR ''B'', CHR ''o'', CHR ''b'', CHR 0x0A])"
  using sample_file_written [of "\<lambda>_. Pages [''Hi'', ''Bob'']" "''a.pdf''"
      "\<lparr>stdout = [], files = [''pdf1_sample.txt'' \<mapsto> (''utf-8'', ''old'')]\<rparr>"
      "[CHR ''H'', CHR ''i'', CHR 0x0A, CHR ''B'', CHR ''o'', CHR ''b'', CHR 0x0A]" "\<lambda>_. []" "''b.pdf''"]
  by (simp add: extract_text_from_pdf_def)

subsection \<open>The names report\<close>







subsection \<open>Counting the placeholder\<close>

lemma fold_append_acc: "fold (\<lambda>p rels. rels @ f p) ps acc = acc @ concat (map f ps)"
  by (induction ps arbitrary: acc) simp_all

lemma relationships_eq:
  "snd (extract_names_and_relationships text) =
     concat (map (\<lambda>e. findall True e text) relationship_patterns)
     @ concat (map (\<lambda>e. map normalize (findall True e text)) redacted_patterns)"
  by (simp add: extract_names_and_relationships_def Let_def fold_append_acc)

lemma lit_eq_ic: "lit_eq True p c \<longleftrightarrow> lower_char c = lower_char p"
  by (auto simp add: lit_eq_def)

lemma list_all2_map_eq: "list_all2 (\<lambda>p c. f c = f p) w xs \<longleftrightarrow> map f xs = map f w"
  by (induction w arbitrary: xs) (auto simp add: list_all2_Cons1 Cons_eq_map_conv)

lemma re_match_str:
  "re_match ic (str w) (l, r, g) =
     (if length w \<le> length r \<and> list_all2 (lit_eq ic) w (take (length w) r)
      then [(rev (take (length w) r) @ l, drop (length w) r, g)] else [])"
proof (induction w arbitrary: l r)
  case Nil
  then show ?case by (simp add: str_def seq_def re_match_step)
next
  case (Cons p ps)
  have s: "str (p # ps) = Cat (Lit p) (str ps)" by (simp add: str_def seq_def)
  show ?case
  proof (cases r)
    case Nil
    then show ?thesis by (simp add: s re_match_step)
  next
    case (Cons c cs)
    then show ?thesis using Cons.IH [of "c # l" cs] by (simp add: s re_match_step)
  qed
qed

lemma re_match_str_ic:
  "re_match True (str w) (l, r, g) =
     (if ci_prefix w r then [(rev (take (length w) r) @ l, drop (length w) r, g)] else [])"
proof -
  have "length w \<le> length r \<and> list_all2 (lit_eq True) w (take (length w) r) \<longleftrightarrow> ci_prefix w r"
    by (auto simp add: ci_prefix_def lower_def lit_eq_ic [abs_def] list_all2_map_eq)
  then show ?thesis by (simp add: re_match_str)
qed

lemma ngroups_str [simp]: "ngroups (str w) = 0"
  by (induction w) (simp_all add: str_def seq_def)

lemma lower_redacted:
  "lower_char CHR ''R'' = CHR ''r''" "lower_char CHR ''E'' = CHR ''e''" "lower_char CHR ''D'' = CHR ''d''"
  "lower_char CHR ''A'' = CHR ''a''" "lower_char CHR ''C'' = CHR ''c''" "lower_char CHR ''T'' = CHR ''t''"
  by code_simp+

lemma ci_prefix_redacted:
  "ci_prefix ''REDACTED'' r \<longleftrightarrow>
     (\<exists>c1 c2 c3 c4 c5 c6 c7 c8 rest. r = c1 # c2 # c3 # c4 # c5 # c6 # c7 # c8 # rest
        \<and> lower_char c1 = CHR ''r'' \<and> lower_char c2 = CHR ''e'' \<and> lower_char c3 = CHR ''d''
        \<and> lower_char c4 = CHR ''a'' \<and> lower_char c5 = CHR ''c'' \<and> lower_char c6 = CHR ''t''
        \<and> lower_char c7 = CHR ''e'' \<and> lower_char c8 = CHR ''d'')"
  by (auto simp add: ci_prefix_def lower_def lower_redacted Suc_le_length_iff)

lemma ci_count_skip:
  assumes "ci_prefix ''REDACTED'' r"
  shows "ci_count ''REDACTED'' r = Suc (ci_count ''REDACTED'' (drop (length ''REDACTED'') r))"
proof -
  from assms obtain c1 c2 c3 c4 c5 c6 c7 c8 rest where r: "r = c1 # c2 # c3 # c4 # c5 # c6 # c7 # c8 # rest"
    and c: "lower_char c1 = CHR ''r''" "lower_char c2 = CHR ''e''" "lower_char c3 = CHR ''d''"
      "lower_char c4 = CHR ''a''" "lower_char c5 = CHR ''c''" "lower_char c6 = CHR ''t''"
      "lower_char c7 = CHR ''e''" "lower_char c8 = CHR ''d''"
    unfolding ci_prefix_redacted by blast
  have n: "\<not> ci_prefix ''REDACTED'' (c2 # c3 # c4 # c5 # c6 # c7 # c8 # rest)"
    "\<not> ci_prefix ''REDACTED'' (c3 # c4 # c5 # c6 # c7 # c8 # rest)"
    "\<not> ci_prefix ''REDACTED'' (c4 # c5 # c6 # c7 # c8 # rest)"
    "\<not> ci_prefix ''REDACTED'' (c5 # c6 # c7 # c8 # rest)"
    "\<not> ci_prefix ''REDACTED'' (c6 # c7 # c8 # rest)"
    "\<not> ci_prefix ''REDACTED'' (c7 # c8 # rest)"
    "\<not> ci_prefix ''REDACTED'' (c8 # rest)"
    using c by (auto simp add: ci_prefix_redacted)
  show ?thesis
    using assms n by (simp add: r)
qed

lemma findall_redacted:
  "length (findall_from True (str ''REDACTED'') l r) = ci_count ''REDACTED'' r"
proof (induction "length r" arbitrary: l r rule: less_induct)
  case less
  show ?case
  proof (cases r)
    case Nil
    then show ?thesis by simp
  next
    case (Cons c cs)
    show ?thesis
    proof (cases "ci_prefix ''REDACTED'' r")
      case True
      have lt: "length (drop (length ''REDACTED'') r) < length r" using Cons by simp
      have lhs: "length (findall_from True (str ''REDACTED'') l r) =
          Suc (length (findall_from True (str ''REDACTED'') (rev (take (length ''REDACTED'') r) @ l)
            (drop (length ''REDACTED'') r)))"
        using True lt unfolding Cons by (simp add: re_match_str_ic)
      show ?thesis
        by (simp only: lhs ci_count_skip [OF True] less [OF lt])
    next
      case False
      have "length cs < length r" using Cons by simp
      from less [OF this] False show ?thesis
        by (simp add: Cons re_match_str_ic)
    qed
  qed
qed

lemma redacted_count_eq: "redacted_count t = ci_count ''REDACTED'' t"
  by (simp add: redacted_count_def findall_def findall_redacted)

text \<open>
  C9. The count that \<open>simple_pdf_analysis.py\<close> prints is the number of positions of the scanned
  text at which the placeholder occurs without regard to case; so for every text with exactly
  three such occurrences, as \<open>redacted REDACTED Redacted\<close>, the count is 3.
\<close>

theorem redacted_count_three:
  "ci_count ''REDACTED'' t = 3 \<Longrightarrow> redacted_count t = 3"
  by (simp add: redacted_count_eq)

theorem redacted_count_three_witness:
  "ci_count ''REDACTED'' ''redacted REDACTED Redacted'' = 3
   \<and> redacted_count ''redacted REDACTED Redacted'' = 3"
proof -
  have h: "ci_count ''REDACTED'' ''redacted REDACTED Redacted'' = 3"
    by code_simp
  from h redacted_count_three [OF h] show ?thesis by (rule conjI)
qed

subsection \<open>Relationships\<close>

text \<open>
  C2. The flag \<open>re.IGNORECASE\<close> covers the whole pattern, the classes \<open>[A-Z]\<close> and \<open>[a-z]\<close> of
  the entity spans included: on a text in lower case the extraction returns entities in lower
  case.
\<close>

theorem lowercase_entity:
  "snd (extract_names_and_relationships ''jane works with john'') = [Tup [''jane'', ''john'']]"
  by code_simp

subsection \<open>A phrase between characters that are not letters\<close>

text \<open>
  Under \<open>re.IGNORECASE\<close> the two letter classes accept the same characters, and \<open>\s\<close> is
  unchanged.
\<close>

lemma in_cls_ic:
  "in_cls True [Rng CHR ''A'' CHR ''Z''] c = letter c"
  "in_cls True [Rng CHR ''a'' CHR ''z''] c = letter c"
  "in_cls True [Spc] c = is_space c"
proof -
  have "\<forall>c. in_cls True [Rng CHR ''A'' CHR ''Z''] c = letter c" by code_simp
  then show "in_cls True [Rng CHR ''A'' CHR ''Z''] c = letter c" by simp
  have "\<forall>c. in_cls True [Rng CHR ''a'' CHR ''z''] c = letter c" by code_simp
  then show "in_cls True [Rng CHR ''a'' CHR ''z''] c = letter c" by simp
  have "\<forall>c. in_cls True [Spc] c = is_space c" by code_simp
  then show "in_cls True [Spc] c = is_space c" by simp
qed

lemma letter_lower: "letter (lower_char c) = letter c"
proof -
  have "\<forall>c. letter (lower_char c) = letter c" by code_simp
  then show ?thesis by simp
qed

lemma letter_not_space: "letter c \<Longrightarrow> \<not> is_space c"
proof -
  have "\<forall>c. letter c \<longrightarrow> \<not> is_space c" by code_simp
  then show "letter c \<Longrightarrow> \<not> is_space c" by simp
qed

lemma lit_letter: "lit_eq True p c \<Longrightarrow> letter p \<Longrightarrow> letter c"
  using letter_lower [of c] letter_lower [of p] by (simp add: lit_eq_ic)

lemma letter_first_append: "letter_first u \<Longrightarrow> letter_first (u @ v)"
  by (cases u) (simp_all add: letter_first_def)

lemma lang_starts: "starts e \<Longrightarrow> w \<in> lang True e \<Longrightarrow> letter_first w"
proof (induction e arbitrary: w)
  case (Lit p)
  then show ?case by (auto simp add: letter_first_def lit_letter)
next
  case (Cls its)
  then show ?case by (auto simp add: letter_first_def in_cls_ic)
next
  case (Cat a b)
  then show ?case by (auto simp add: letter_first_append)
qed auto

lemma lang_wordy: "wordy e \<Longrightarrow> w \<in> lang True e \<Longrightarrow> \<forall>c \<in> set w. letter c \<or> is_space c"
proof (induction e arbitrary: w)
  case (Lit p)
  then show ?case by (auto simp add: lit_letter)
next
  case (Cls its)
  then show ?case by (auto simp add: in_cls_ic)
next
  case (Cat a b)
  from Cat.prems(2) obtain u v where "w = u @ v" "u \<in> lang True a" "v \<in> lang True b"
    unfolding lang.simps by blast
  with Cat.IH(1) [of u] Cat.IH(2) [of v] Cat.prems(1) show ?case by auto
next
  case (Rep lo hi a)
  from Rep.prems(2) obtain ws where ws: "w = concat ws" "set ws \<subseteq> lang True a"
    unfolding lang.simps by blast
  with Rep.IH Rep.prems(1) show ?case by (auto simp add: subset_iff)
qed auto

lemma lang_spaces_ic: "u \<in> lang True (Rep lo hi (Cls [Spc])) \<Longrightarrow> \<forall>c \<in> set u. is_space c"
proof -
  assume "u \<in> lang True (Rep lo hi (Cls [Spc]))"
  then obtain ws where ws: "u = concat ws" "set ws \<subseteq> lang True (Cls [Spc])"
    unfolding lang.simps(7) by blast
  then show ?thesis by (auto simp add: in_cls_ic subset_iff)
qed

lemma quiet_prefix:
  "\<not> letter_first (dropWhile is_space (xs @ ys)) \<Longrightarrow> \<not> letter_first (dropWhile is_space xs)"
proof
  assume a: "\<not> letter_first (dropWhile is_space (xs @ ys))" and b: "letter_first (dropWhile is_space xs)"
  from b have "dropWhile is_space xs \<noteq> []" by (cases "dropWhile is_space xs") (simp_all add: letter_first_def)
  then obtain x where "x \<in> set xs" "\<not> is_space x" unfolding dropWhile_eq_Nil_conv by blast
  then have "dropWhile is_space (xs @ ys) = dropWhile is_space xs @ ys" by (rule dropWhile_append1)
  with a b show False by (simp add: letter_first_append)
qed

lemma spaces_then_letter:
  assumes "starts b" "\<not> letter_first (dropWhile is_space t)"
  shows "re_match True (Cat (Rep (Suc 0) None (Cls [Spc])) b) (l, t, g) = []"
proof (cases "re_match True (Cat (Rep (Suc 0) None (Cls [Spc])) b) (l, t, g)")
  case Nil
  then show ?thesis .
next
  case (Cons st' rest)
  then have "st' \<in> set (re_match True (Cat (Rep (Suc 0) None (Cls [Spc])) b) (l, t, g))" by simp
  from re_match_sound [OF this] obtain w where
    w: "w \<in> lang True (Cat (Rep (Suc 0) None (Cls [Spc])) b)" "t = w @ fst (snd st')" by auto
  from w(1) obtain u v where uv: "w = u @ v" "u \<in> lang True (Rep (Suc 0) None (Cls [Spc]))" "v \<in> lang True b"
    unfolding lang.simps(5) by blast
  from lang_spaces_ic [OF uv(2)] have sp: "\<And>x. x \<in> set u \<Longrightarrow> is_space x" by simp
  from lang_starts [OF assms(1) uv(3)] obtain c v' where v: "v = c # v'" "letter c"
    by (auto simp add: letter_first_def split: list.splits)
  have "dropWhile is_space t = dropWhile is_space (c # v' @ fst (snd st'))"
    unfolding w(2) uv(1) v(1) using dropWhile_append2 [of u is_space, OF sp] by simp
  also have "\<dots> = c # v' @ fst (snd st')" using letter_not_space [OF v(2)] by simp
  finally show ?thesis using assms(2) v(2) by (simp add: letter_first_def)
qed

lemma Cat_Cons:
  "re_match ic (Cat a b) (l, c # cs, g) = concat (map (re_match ic b) (re_match ic a (l, c # cs, g)))"
  by (rule re_match.simps(5))

lemma Cat_Nil:
  "re_match ic (Cat a b) (l, [], g) = concat (map (re_match ic b) (re_match ic a (l, [], g)))"
  by (rule re_match.simps(5))

lemma Rep_Cons:
  "re_match ic (Rep lo hi a) (l, c # cs, g) =
     (if hi = Some 0 then []
      else concat (map (\<lambda>(l', r', g').
              if 0 < lo \<or> length r' < length (c # cs)
              then re_match ic (Rep (lo - 1) (map_option (\<lambda>h. h - 1) hi) a) (l', r', g')
              else [])
            (re_match ic a (l, c # cs, g))))
     @ (if lo = 0 then [(l, c # cs, g)] else [])"
  by (rule re_match.simps(8))

lemma Rep_Nil:
  "re_match ic (Rep lo hi a) (l, [], g) =
     (if hi = Some 0 then []
      else concat (map (\<lambda>(l', r', g').
              if 0 < lo \<or> length r' < length ([] :: string)
              then re_match ic (Rep (lo - 1) (map_option (\<lambda>h. h - 1) hi) a) (l', r', g')
              else [])
            (re_match ic a (l, [], g))))
     @ (if lo = 0 then [(l, [], g)] else [])"
  by (rule re_match.simps(8))

lemma letters_stop:
  "\<not> letter_first t \<Longrightarrow> re_match True (Rep 0 None (Cls [Rng CHR ''a'' CHR ''z''])) (l, t, g) = [(l, t, g)]"
  by (cases t) (simp_all add: Rep_Cons Rep_Nil re_match_step in_cls_ic letter_first_def)

lemma words_stop:
  assumes "starts b" "\<not> letter_first (dropWhile is_space t)"
  shows "re_match True (Rep 0 None (Cat (Rep (Suc 0) None (Cls [Spc])) b)) (l, t, g) = [(l, t, g)]"
  by (subst re_match.simps(8)) (simp add: spaces_then_letter [OF assms])

lemma quiet_first: "\<not> letter_first (dropWhile is_space t) \<Longrightarrow> \<not> letter_first t"
proof
  assume a: "\<not> letter_first (dropWhile is_space t)" and b: "letter_first t"
  from b obtain c cs where t: "t = c # cs" "letter c" by (auto simp add: letter_first_def split: list.splits)
  from letter_not_space [OF t(2)] have "dropWhile is_space t = t" by (simp add: t(1))
  with a b show False by simp
qed

lemma letter_table:
  "\<not> letter CHR '' ''" "letter CHR ''A''" "letter CHR ''C''" "letter CHR ''D''"
  "letter CHR ''E''" "letter CHR ''J''" "letter CHR ''R''" "letter CHR ''S''"
  "letter CHR ''T''" "letter CHR ''a''" "letter CHR ''b''" "letter CHR ''e''"
  "letter CHR ''f''" "letter CHR ''h''" "letter CHR ''i''" "letter CHR ''k''"
  "letter CHR ''m''" "letter CHR ''n''" "letter CHR ''o''" "letter CHR ''r''"
  "letter CHR ''s''" "letter CHR ''t''" "letter CHR ''w''" "letter CHR ''y''"
  "is_space CHR '' ''" "\<not> is_space CHR ''A''" "\<not> is_space CHR ''C''" "\<not> is_space CHR ''D''"
  "\<not> is_space CHR ''E''" "\<not> is_space CHR ''J''" "\<not> is_space CHR ''R''" "\<not> is_space CHR ''S''"
  "\<not> is_space CHR ''T''" "\<not> is_space CHR ''a''" "\<not> is_space CHR ''b''" "\<not> is_space CHR ''e''"
  "\<not> is_space CHR ''f''" "\<not> is_space CHR ''h''" "\<not> is_space CHR ''i''" "\<not> is_space CHR ''k''"
  "\<not> is_space CHR ''m''" "\<not> is_space CHR ''n''" "\<not> is_space CHR ''o''" "\<not> is_space CHR ''r''"
  "\<not> is_space CHR ''s''" "\<not> is_space CHR ''t''" "\<not> is_space CHR ''w''" "\<not> is_space CHR ''y''"
  by code_simp+

lemma lower_table:
  "lower_char CHR '' '' = CHR '' ''" "lower_char CHR ''A'' = CHR ''a''" "lower_char CHR ''C'' = CHR ''c''"
  "lower_char CHR ''D'' = CHR ''d''" "lower_char CHR ''E'' = CHR ''e''" "lower_char CHR ''J'' = CHR ''j''"
  "lower_char CHR ''R'' = CHR ''r''" "lower_char CHR ''S'' = CHR ''s''" "lower_char CHR ''T'' = CHR ''t''"
  "lower_char CHR ''a'' = CHR ''a''" "lower_char CHR ''b'' = CHR ''b''" "lower_char CHR ''e'' = CHR ''e''"
  "lower_char CHR ''f'' = CHR ''f''" "lower_char CHR ''h'' = CHR ''h''" "lower_char CHR ''i'' = CHR ''i''"
  "lower_char CHR ''k'' = CHR ''k''" "lower_char CHR ''m'' = CHR ''m''" "lower_char CHR ''n'' = CHR ''n''"
  "lower_char CHR ''o'' = CHR ''o''" "lower_char CHR ''r'' = CHR ''r''" "lower_char CHR ''s'' = CHR ''s''"
  "lower_char CHR ''t'' = CHR ''t''" "lower_char CHR ''w'' = CHR ''w''" "lower_char CHR ''y'' = CHR ''y''"
  by code_simp+

lemmas pat_defs = seq_def str_def plus_def star_def opt_def possessive_def
  upper_cls_def lower_cls_def space_cls_def entity_def

lemmas eval_rules = re_match.simps(1-4) re_match.simps(6-7) Cat_Cons Cat_Nil Rep_Cons Rep_Nil
  in_cls_ic lit_eq_ic letter_table lower_table

lemma red_is_here:
  assumes "\<not> letter_first post"
  shows "\<exists>ms. re_match True red_is (l, ''REDACTED is my brother'' @ post, []) =
           (rev ''REDACTED is my brother'' @ l, post, [(1, ''brother'')]) # ms"
  using assms by (simp add: red_is_def pat_defs eval_rules letters_stop)

lemma rel_works_here:
  assumes "\<not> letter_first (dropWhile is_space post)"
  shows "\<exists>ms. re_match True rel_works (l, ''Jane Smith works with John Doe'' @ post, []) =
           (rev ''Jane Smith works with John Doe'' @ l, post, [(2, ''John Doe''), (1, ''Jane Smith'')]) # ms"
  using assms quiet_first [OF assms]
  by (simp add: rel_works_def pat_defs eval_rules letters_stop words_stop spaces_then_letter)

lemma ngroups_rel [simp]: "ngroups red_is = 1" "ngroups rel_works = 2"
  by (simp_all add: red_is_def rel_works_def pat_defs)

lemma findall_red_is_here:
  assumes "\<not> letter_first post"
  shows "\<exists>rest. findall_from True red_is l (''REDACTED is my brother'' @ post) = Str ''brother'' # rest"
proof -
  from red_is_here [OF assms] obtain ms where
    "re_match True red_is (l, ''REDACTED is my brother'' @ post, []) =
       (rev ''REDACTED is my brother'' @ l, post, [(1, ''brother'')]) # ms" by blast
  then show ?thesis by (simp add: result_of_def group_text_def)
qed

lemma findall_rel_works_here:
  assumes "\<not> letter_first (dropWhile is_space post)"
  shows "\<exists>rest. findall_from True rel_works l (''Jane Smith works with John Doe'' @ post) =
           Tup [''Jane Smith'', ''John Doe''] # rest"
proof -
  from rel_works_here [OF assms] obtain ms where
    "re_match True rel_works (l, ''Jane Smith works with John Doe'' @ post, []) =
       (rev ''Jane Smith works with John Doe'' @ l, post, [(2, ''John Doe''), (1, ''Jane Smith'')]) # ms"
    by blast
  then show ?thesis by (simp add: result_of_def group_text_def upt_rec)
qed

lemma findall_from_scan:
  assumes lang: "\<And>w. w \<in> lang ic e \<Longrightarrow> letter_first w \<and> (\<forall>c \<in> set w. letter c \<or> is_space c)"
  shows "\<not> letter_first (dropWhile is_space (rev pre)) \<Longrightarrow>
    \<exists>xs. findall_from ic e l (pre @ r) = xs @ findall_from ic e (rev pre @ l) r"
proof (induction "length pre" arbitrary: pre l rule: less_induct)
  case less
  show ?case
  proof (cases pre)
    case Nil
    then show ?thesis by simp
  next
    case (Cons c cs)
    note pre = Cons
    have q: "\<not> letter_first (dropWhile is_space (rev (drop k pre)))" for k
    proof -
      have "rev pre = rev (drop k pre) @ rev (take k pre)"
        by (simp flip: rev_append)
      with less.prems show ?thesis by (metis quiet_prefix)
    qed
    have skip: "\<exists>xs. findall_from ic e (c # l) (cs @ r) = xs @ findall_from ic e (rev pre @ l) r"
      using less.hyps [of cs "c # l"] q [of 1] by (simp add: pre)
    show ?thesis
    proof (cases "re_match ic e (l, pre @ r, [])")
      case Nil
      then show ?thesis using skip by (simp add: pre)
    next
      case (Cons st sts)
      obtain l' r' g' where st: "st = (l', r', g')" by (cases st)
      show ?thesis
      proof (cases "length r' < length (pre @ r)")
        case False
        then show ?thesis using skip Cons by (simp add: pre st)
      next
        case True
        have "st \<in> set (re_match ic e (l, pre @ r, []))" by (simp add: Cons)
        from re_match_sound [OF this] obtain w where
          w: "w \<in> lang ic e" "pre @ r = w @ r'" "l' = rev w @ l" by (auto simp add: st)
        from lang [OF w(1)] have lf: "letter_first w" and al: "\<forall>c \<in> set w. letter c \<or> is_space c"
          by simp_all
        have le: "length w \<le> length pre"
        proof (rule ccontr)
          assume "\<not> length w \<le> length pre"
          then have lt: "length pre < length w" by simp
          have "take (length pre) (pre @ r) = take (length pre) (w @ r')" by (simp only: w(2))
          with lt have tk: "pre = take (length pre) w" by simp
          have "set (take (length pre) w) \<subseteq> set w" by (rule set_take_subset)
          with tk al have alp: "\<forall>x \<in> set pre. letter x \<or> is_space x" by auto
          from lf obtain c' w' where w': "w = c' # w'" "letter c'"
            by (auto simp add: letter_first_def split: list.splits)
          from w(2) have "c = c'" by (simp add: pre w'(1))
          with w'(2) have lc: "letter c" by simp
          show False
          proof (cases "dropWhile is_space (rev pre)")
            case Nil
            then have "is_space c" unfolding dropWhile_eq_Nil_conv by (simp add: pre)
            with letter_not_space [OF lc] show False by simp
          next
            case (Cons x xs)
            have "x \<in> set (dropWhile is_space (rev pre))" by (simp add: Cons)
            from set_dropWhileD [OF this] have xin: "x \<in> set pre" by simp
            have "\<not> is_space (hd (dropWhile is_space (rev pre)))"
              by (rule hd_dropWhile) (simp add: Cons)
            then have "\<not> is_space x" by (simp add: Cons)
            with alp xin have "letter x" by blast
            with less.prems show False by (simp add: Cons letter_first_def)
          qed
        qed
        have "take (length w) (pre @ r) = take (length w) (w @ r')" by (simp only: w(2))
        with le have wt: "w = take (length w) pre" by simp
        have "drop (length w) (pre @ r) = drop (length w) (w @ r')" by (simp only: w(2))
        with le have r': "r' = drop (length w) pre @ r" by simp
        from True w(2) have "w \<noteq> []" by auto
        then have sh: "length (drop (length w) pre) < length pre" using le pre by (cases w) simp_all
        from less.hyps [OF sh q, of l' ] obtain xs where
          xs: "findall_from ic e l' (drop (length w) pre @ r) =
                 xs @ findall_from ic e (rev (drop (length w) pre) @ l') r" by blast
        have "rev (drop (length w) pre) @ l' = rev pre @ l"
        proof -
          have "rev pre = rev (drop (length w) pre) @ rev (take (length w) pre)"
            by (simp flip: rev_append)
          then show ?thesis using wt by (simp add: w(3))
        qed
        with xs have "findall_from ic e l' r' = xs @ findall_from ic e (rev pre @ l) r"
          by (simp add: r')
        moreover have "findall_from ic e l (pre @ r) =
            result_of e (rev (take (length l' - length l) l')) g' # findall_from ic e l' r'"
          using True Cons by (simp add: pre st)
        ultimately show ?thesis by simp
      qed
    qed
  qed
qed

lemma scan_patterns:
  assumes "wordy e" "starts e" "\<not> letter_first (dropWhile is_space (rev pre))"
  shows "\<exists>xs. findall True e (pre @ r) = xs @ findall_from True e (rev pre) r"
proof -
  have "letter_first w \<and> (\<forall>c \<in> set w. letter c \<or> is_space c)" if "w \<in> lang True e" for w
    using lang_starts [OF assms(2) that] lang_wordy [OF assms(1) that] by simp
  from findall_from_scan [of True e pre "[]" r, OF this assms(3)] show ?thesis
    by (simp add: findall_def)
qed

lemma brothers_result:
  "snd (extract_names_and_relationships ''REDACTED is my brothers'') =
     [Tup [''REDACTED'', ''brothers''], Tup [''REDACTED'', ''brothers'']]"
  by code_simp

lemma john_doe_jr_result:
  "snd (extract_names_and_relationships ''Jane Smith works with John Doe Jr'') =
     [Tup [''Jane Smith'', ''John Doe Jr'']]"
  by code_simp

text \<open>
  C3, as stated, fails: the group \<open>([a-z]+)\<close> takes every letter that follows, so a text that
  contains \<open>REDACTED is my brother\<close> followed by a letter yields another tuple.
\<close>

theorem brothers_counterexample:
  "sublist ''REDACTED is my brother'' ''REDACTED is my brothers''
   \<and> Tup [''REDACTED'', ''brother''] \<notin> set (snd (extract_names_and_relationships ''REDACTED is my brothers''))"
  unfolding brothers_result by code_simp

text \<open>
  C3, amended. For every text in which \<open>REDACTED is my brother\<close> is followed by nothing or by a
  character that is not a letter, and in which the nearest character before it that is not
  whitespace, if there is one, is not a letter, the relationships contain the tuple
  \<open>('REDACTED', 'brother')\<close>.
\<close>

theorem redacted_brother:
  assumes "\<not> letter_first (dropWhile is_space (rev pre))" "\<not> letter_first post"
  shows "Tup [''REDACTED'', ''brother''] \<in>
    set (snd (extract_names_and_relationships (pre @ ''REDACTED is my brother'' @ post)))"
proof -
  have "wordy red_is" "starts red_is" by (simp_all add: red_is_def pat_defs letter_table)
  from scan_patterns [OF this assms(1)] obtain xs where
    "findall True red_is (pre @ ''REDACTED is my brother'' @ post) =
       xs @ findall_from True red_is (rev pre) (''REDACTED is my brother'' @ post)" by blast
  moreover from findall_red_is_here [OF assms(2)] obtain rest where
    "findall_from True red_is (rev pre) (''REDACTED is my brother'' @ post) = Str ''brother'' # rest"
    by blast
  ultimately have "Str ''brother'' \<in> set (findall True red_is (pre @ ''REDACTED is my brother'' @ post))"
    by simp
  then have "Tup [''REDACTED'', ''brother''] \<in>
      set (map normalize (findall True red_is (pre @ ''REDACTED is my brother'' @ post)))"
    using image_eqI [of "Tup [''REDACTED'', ''brother'']" normalize "Str ''brother''"] by simp
  then show ?thesis
    unfolding relationships_eq by (simp add: redacted_patterns_def)
qed

theorem redacted_brother_witness:
  "\<not> letter_first (dropWhile is_space (rev ''He said: '')) \<and> \<not> letter_first ''.''
   \<and> Tup [''REDACTED'', ''brother''] \<in>
     set (snd (extract_names_and_relationships (''He said: '' @ ''REDACTED is my brother'' @ ''.'')))"
proof -
  have a: "\<not> letter_first (dropWhile is_space (rev ''He said: ''))" by code_simp
  have b: "\<not> letter_first ''.''" by code_simp
  from a b redacted_brother [OF a b] show ?thesis by simp
qed

text \<open>
  C5, as stated, fails: an entity span runs on over every following word of two or more
  letters, so a text that contains \<open>Jane Smith works with John Doe\<close> followed by a further word
  yields another tuple.
\<close>

theorem john_doe_jr_counterexample:
  "sublist ''Jane Smith works with John Doe'' ''Jane Smith works with John Doe Jr''
   \<and> Tup [''Jane Smith'', ''John Doe''] \<notin> set (snd (extract_names_and_relationships ''Jane Smith works with John Doe Jr''))"
  unfolding john_doe_jr_result by code_simp

text \<open>
  C5, amended. For every text in which the nearest characters that are not whitespace before
  and after \<open>Jane Smith works with John Doe\<close>, where there are any, are not letters, the
  relationships contain the tuple \<open>('Jane Smith', 'John Doe')\<close>.
\<close>

theorem works_with_pair:
  assumes "\<not> letter_first (dropWhile is_space (rev pre))" "\<not> letter_first (dropWhile is_space post)"
  shows "Tup [''Jane Smith'', ''John Doe''] \<in>
    set (snd (extract_names_and_relationships (pre @ ''Jane Smith works with John Doe'' @ post)))"
proof -
  have "wordy rel_works" "starts rel_works" by (simp_all add: rel_works_def pat_defs letter_table)
  from scan_patterns [OF this assms(1)] obtain xs where
    "findall True rel_works (pre @ ''Jane Smith works with John Doe'' @ post) =
       xs @ findall_from True rel_works (rev pre) (''Jane Smith works with John Doe'' @ post)" by blast
  moreover from findall_rel_works_here [OF assms(2)] obtain rest where
    "findall_from True rel_works (rev pre) (''Jane Smith works with John Doe'' @ post) =
       Tup [''Jane Smith'', ''John Doe''] # rest"
    by blast
  ultimately have "Tup [''Jane Smith'', ''John Doe''] \<in>
      set (findall True rel_works (pre @ ''Jane Smith works with John Doe'' @ post))"
    by simp
  then show ?thesis
    unfolding relationships_eq by (simp add: relationship_patterns_def)
qed

theorem works_with_pair_witness:
  "\<not> letter_first (dropWhile is_space (rev ''In 2001, '')) \<and> \<not> letter_first (dropWhile is_space '' (see page 4).'')
   \<and> Tup [''Jane Smith'', ''John Doe''] \<in>
     set (snd (extract_names_and_relationships
       (''In 2001, '' @ ''Jane Smith works with John Doe'' @ '' (see page 4).'')))"
proof -
  have a: "\<not> letter_first (dropWhile is_space (rev ''In 2001, ''))" by code_simp
  have b: "\<not> letter_first (dropWhile is_space '' (see page 4).'')" by code_simp
  from a b works_with_pair [OF a b] show ?thesis by simp
qed

end
